theory Spec2Isabelle
  imports Complex_Main
begin

section \<open>JavaScript values used by the retrieval core\<close>

text \<open>
  Strings are modelled as \<^typ>\<open>string\<close>; the model covers the JavaScript strings
  of characters up to \<open>U+00FF\<close>, where one character is one UTF-16 code unit, so
  that \<open>length\<close> is the JavaScript \<open>.length\<close>.  Array and string indices, \<open>maxTokens\<close>,
  \<open>overlapTokens\<close> and \<open>k\<close> are JavaScript numbers holding integers and are
  modelled as \<^typ>\<open>int\<close>; array lengths and token counts are \<^typ>\<open>nat\<close>.
\<close>

text \<open>The relative index of \<open>Array.prototype.slice\<close> and \<open>String.prototype.slice\<close>:
  a negative index counts from the end, and every index is clamped to the length.\<close>

definition rel_index :: "int \<Rightarrow> nat \<Rightarrow> nat" where
  "rel_index i len = (if i < 0 then nat (max (int len + i) 0) else min (nat i) len)"

definition js_slice :: "'a list \<Rightarrow> int \<Rightarrow> int \<Rightarrow> 'a list" where
  "js_slice xs s e =
     (let k = rel_index s (length xs); final = rel_index e (length xs)
      in take (final - k) (drop k xs))"

text \<open>\<open>s.slice(start)\<close>: the end defaults to the length.\<close>

definition js_slice_from :: "'a list \<Rightarrow> int \<Rightarrow> 'a list" where
  "js_slice_from xs s = drop (rel_index s (length xs)) xs"

section \<open>The token-window chunker (src/lib/chunker.js)\<close>

text \<open>
  The tokenizer \<open>enc\<close> of js-tiktoken is an external library: its \<open>encode\<close> and
  \<open>decode\<close> are parameters of the model.
\<close>

record tokenizer =
  encode :: "string \<Rightarrow> nat list"
  decode :: "nat list \<Rightarrow> string"

record wchunk =
  w_text :: string
  w_start :: int
  w_end :: int

text \<open>
  The \<open>for\<close> loop of \<open>chunkText\<close>, with the loop variable \<open>start\<close> and the array
  \<open>chunks\<close> as arguments.  The loop may run forever, so the result is an option:
  \<open>None\<close> is the run that never returns.
\<close>

partial_function (option) chunkText_loop ::
  "tokenizer \<Rightarrow> nat list \<Rightarrow> int \<Rightarrow> int \<Rightarrow> int \<Rightarrow> wchunk list \<Rightarrow> wchunk list option"
where
  "chunkText_loop enc ids maxTokens overlapTokens start chunks =
     (if start < int (length ids) then
        (let e = min (start + maxTokens) (int (length ids));
             sub = js_slice ids start e;
             chunks' = chunks @ [\<lparr>w_text = decode enc sub, w_start = start, w_end = e\<rparr>]
         in if e = int (length ids) then Some chunks'
            else chunkText_loop enc ids maxTokens overlapTokens
                   (start + (maxTokens - overlapTokens)) chunks')
      else Some chunks)"

declare chunkText_loop.simps [code]

definition chunkText :: "tokenizer \<Rightarrow> string \<Rightarrow> int \<Rightarrow> int \<Rightarrow> wchunk list option" where
  "chunkText enc text maxTokens overlapTokens =
     chunkText_loop enc (encode enc text) maxTokens overlapTokens 0 []"

text \<open>A byte-level tokenizer, one token per character, used to run the chunkers on
  concrete inputs.\<close>

definition byte_tokenizer :: tokenizer where
  "byte_tokenizer = \<lparr>encode = map of_char, decode = map char_of\<rparr>"

text \<open>A tokenizer with the token counts of the byte-level tokenizer and other token
  ids.\<close>

definition blind_tokenizer :: tokenizer where
  "blind_tokenizer = \<lparr>encode = map (\<lambda>c. 0), decode = map char_of\<rparr>"

section \<open>String helpers of the sentence-accumulating chunker\<close>

text \<open>Whitespace as \<open>\s\<close> and \<open>trim()\<close> see it, up to \<open>U+00FF\<close>: tab, line feed,
  vertical tab, form feed, carriage return, space and the no-break space.\<close>

definition is_space :: "char \<Rightarrow> bool" where
  "is_space c = (c = CHR 0x09 \<or> c = CHR 0x0A \<or> c = CHR 0x0B \<or> c = CHR 0x0C \<or>
                 c = CHR 0x0D \<or> c = CHR '' '' \<or> c = CHR 0xA0)"

definition is_terminator :: "char \<Rightarrow> bool" where
  "is_terminator c = (c = CHR ''.'' \<or> c = CHR ''!'' \<or> c = CHR ''?'')"

definition trim :: "string \<Rightarrow> string" where
  "trim s = rev (dropWhile is_space (rev (dropWhile is_space s)))"

text \<open>
  \<open>s.split(/[sep]+/)\<close> for a character class \<open>sep\<close>: the pieces between the maximal
  runs of separator characters.  A run at the start or at the end of the string
  leaves an empty piece there, and the empty string gives one empty piece.
  \<open>in_run\<close> says that the previous character was a separator.
\<close>

fun split_runs_aux :: "(char \<Rightarrow> bool) \<Rightarrow> bool \<Rightarrow> string \<Rightarrow> string \<Rightarrow> string list" where
  "split_runs_aux sep in_run cur [] = [cur]"
| "split_runs_aux sep in_run cur (c # cs) =
     (if sep c then
        (if in_run then split_runs_aux sep True cur cs
         else cur # split_runs_aux sep True [] cs)
      else split_runs_aux sep False (cur @ [c]) cs)"

definition split_runs :: "(char \<Rightarrow> bool) \<Rightarrow> string \<Rightarrow> string list" where
  "split_runs sep s = split_runs_aux sep False [] s"

text \<open>
  \<open>text.split(/\n\s*\n/)\<close>.  After a line feed, the greedy \<open>\s*\<close> takes the whole
  run of whitespace and backtracks to the last line feed in it: \<open>blank_end cs\<close> is
  the number of characters of \<open>cs\<close> the match consumes after the first line feed,
  when there is a match.
\<close>

definition blank_end :: "string \<Rightarrow> nat option" where
  "blank_end cs =
     (let run = takeWhile is_space cs
      in if CHR 0x0A \<in> set run
         then Some (length run - length (takeWhile (\<lambda>c. c \<noteq> CHR 0x0A) (rev run)))
         else None)"

function split_paragraphs_aux :: "string \<Rightarrow> string \<Rightarrow> string list" where
  "split_paragraphs_aux cur [] = [cur]"
| "split_paragraphs_aux cur (c # cs) =
     (if c = CHR 0x0A then
        (case blank_end cs of
           Some k \<Rightarrow> cur # split_paragraphs_aux [] (drop k cs)
         | None \<Rightarrow> split_paragraphs_aux (cur @ [c]) cs)
      else split_paragraphs_aux (cur @ [c]) cs)"
  by pat_completeness auto
termination
  by (relation "measure (\<lambda>(cur, s). length s)") auto

definition split_paragraphs :: "string \<Rightarrow> string list" where
  "split_paragraphs s = split_paragraphs_aux [] s"

section \<open>The sentence-accumulating chunker (chunkTextEnhanced)\<close>

definition countTokens :: "tokenizer \<Rightarrow> string \<Rightarrow> nat" where
  "countTokens enc s = length (encode enc s)"

record echunk =
  e_text :: string
  e_start :: nat
  e_end :: nat
  e_tokens :: nat

text \<open>\<open>chunks.push({text: currentChunk.trim(), start: chunks.length,
  end: chunks.length + 1, tokens: currentTokens})\<close>\<close>

definition push_chunk :: "echunk list \<Rightarrow> string \<Rightarrow> nat \<Rightarrow> echunk list" where
  "push_chunk chunks currentChunk currentTokens =
     chunks @ [\<lparr>e_text = trim currentChunk, e_start = length chunks,
                e_end = length chunks + 1, e_tokens = currentTokens\<rparr>]"

text \<open>The loop state: \<open>chunks\<close>, \<open>currentChunk\<close> and \<open>currentTokens\<close>.\<close>

type_synonym cstate = "echunk list \<times> string \<times> nat"

text \<open>The inner loop over the sentences of one paragraph.\<close>

fun sentence_loop :: "tokenizer \<Rightarrow> int \<Rightarrow> int \<Rightarrow> string list \<Rightarrow> cstate \<Rightarrow> cstate" where
  "sentence_loop enc maxTokens overlapTokens [] st = st"
| "sentence_loop enc maxTokens overlapTokens (sentence # rest) (chunks, currentChunk, currentTokens) =
     (if trim sentence = [] then
        sentence_loop enc maxTokens overlapTokens rest (chunks, currentChunk, currentTokens)
      else
        (let sentenceTokens = countTokens enc sentence
         in if int (currentTokens + sentenceTokens) > maxTokens \<and> currentChunk \<noteq> [] then
              (let overlapText = js_slice_from currentChunk (- (overlapTokens * 4))
               in sentence_loop enc maxTokens overlapTokens rest
                    (push_chunk chunks currentChunk currentTokens,
                     overlapText @ sentence @ ''. '',
                     countTokens enc overlapText + sentenceTokens))
            else
              sentence_loop enc maxTokens overlapTokens rest
                (chunks, currentChunk @ sentence @ ''. '', currentTokens + sentenceTokens)))"

text \<open>The outer loop over the paragraphs; a paragraph ends with \<open>"\n\n"\<close>.\<close>

fun paragraph_loop :: "tokenizer \<Rightarrow> int \<Rightarrow> int \<Rightarrow> string list \<Rightarrow> cstate \<Rightarrow> cstate" where
  "paragraph_loop enc maxTokens overlapTokens [] st = st"
| "paragraph_loop enc maxTokens overlapTokens (paragraph # rest) st =
     (if trim paragraph = [] then paragraph_loop enc maxTokens overlapTokens rest st
      else
        (case sentence_loop enc maxTokens overlapTokens (split_runs is_terminator paragraph) st of
           (chunks, currentChunk, currentTokens) \<Rightarrow>
             paragraph_loop enc maxTokens overlapTokens rest
               (chunks, currentChunk @ [CHR 0x0A, CHR 0x0A], currentTokens)))"

definition chunkTextEnhanced :: "tokenizer \<Rightarrow> string \<Rightarrow> int \<Rightarrow> int \<Rightarrow> echunk list" where
  "chunkTextEnhanced enc text maxTokens overlapTokens =
     (case paragraph_loop enc maxTokens overlapTokens (split_paragraphs text) ([], [], 0) of
        (chunks, currentChunk, currentTokens) \<Rightarrow>
          if trim currentChunk = [] then chunks
          else push_chunk chunks currentChunk currentTokens)"

text \<open>The sentences the chunker counts: the non-blank pieces of the non-blank
  paragraphs, in order.\<close>

definition sentences_of :: "string \<Rightarrow> string list" where
  "sentences_of text =
     filter (\<lambda>s. trim s \<noteq> [])
       (concat (map (split_runs is_terminator)
          (filter (\<lambda>p. trim p \<noteq> []) (split_paragraphs text))))"

text \<open>
  The chunker as a partition of the text.  The two loops read the text as one
  sequence of items: the non-blank sentences of each non-blank paragraph, and a
  paragraph break after each non-blank paragraph.  A sentence is appended to the
  buffer with \<open>". "\<close> after it, a paragraph break as \<open>"\n\n"\<close>.
\<close>

datatype item = Sentence string | ParagraphBreak

fun render :: "item \<Rightarrow> string" where
  "render (Sentence s) = s @ ''. ''"
| "render ParagraphBreak = [CHR 0x0A, CHR 0x0A]"

fun item_tokens :: "tokenizer \<Rightarrow> item \<Rightarrow> nat" where
  "item_tokens enc (Sentence s) = countTokens enc s"
| "item_tokens enc ParagraphBreak = 0"

fun sentences_in :: "item list \<Rightarrow> string list" where
  "sentences_in [] = []"
| "sentences_in (Sentence s # rest) = s # sentences_in rest"
| "sentences_in (ParagraphBreak # rest) = sentences_in rest"

definition paragraph_items :: "string \<Rightarrow> item list" where
  "paragraph_items paragraph =
     map Sentence (filter (\<lambda>s. trim s \<noteq> []) (split_runs is_terminator paragraph))
     @ [ParagraphBreak]"

definition items_of :: "string \<Rightarrow> item list" where
  "items_of text =
     concat (map paragraph_items (filter (\<lambda>p. trim p \<noteq> []) (split_paragraphs text)))"

text \<open>
  The overlap seed as the specification words it: the trailing
  \<open>overlapTokens * 4\<close> characters of the closed buffer (all of it when it is
  shorter).
\<close>

definition overlap_seed :: "int \<Rightarrow> string \<Rightarrow> string" where
  "overlap_seed overlapTokens buffer = drop (length buffer - nat (overlapTokens * 4)) buffer"

text \<open>
  The chunk of one group of consecutive items.  \<open>prev\<close> is the buffer of the chunk
  closed before it, if there is one: the buffer of the group is the overlap seed
  of \<open>prev\<close> followed by the rendered items, and the recorded token count is the
  count of the seed plus the counts of the sentences of the group.
  \<open>chunks_of_groups\<close> emits one chunk for each group of a list, in order.
\<close>

definition emit_group :: "tokenizer \<Rightarrow> int \<Rightarrow> echunk list \<times> string option \<Rightarrow> item list
                           \<Rightarrow> echunk list \<times> string option" where
  "emit_group enc overlapTokens st g =
     (case st of (chunks, prev) \<Rightarrow>
        (let seed = (case prev of None \<Rightarrow> [] | Some b \<Rightarrow> overlap_seed overlapTokens b);
             seedTokens = (case prev of None \<Rightarrow> 0 | Some b \<Rightarrow> countTokens enc seed);
             buffer = seed @ concat (map render g)
         in (push_chunk chunks buffer (seedTokens + sum_list (map (item_tokens enc) g)),
             Some buffer)))"

definition chunks_of_groups :: "tokenizer \<Rightarrow> int \<Rightarrow> item list list \<Rightarrow> echunk list" where
  "chunks_of_groups enc overlapTokens groups =
     fst (foldl (emit_group enc overlapTokens) ([], None) groups)"

text \<open>One round of the inner loop on a non-blank sentence, and the paragraph break,
  as a step on the loop state.\<close>

fun item_step :: "tokenizer \<Rightarrow> int \<Rightarrow> int \<Rightarrow> cstate \<Rightarrow> item \<Rightarrow> cstate" where
  "item_step enc maxTokens overlapTokens (chunks, currentChunk, currentTokens) (Sentence sentence) =
     (let sentenceTokens = countTokens enc sentence
      in if int (currentTokens + sentenceTokens) > maxTokens \<and> currentChunk \<noteq> [] then
           (let overlapText = js_slice_from currentChunk (- (overlapTokens * 4))
            in (push_chunk chunks currentChunk currentTokens,
                overlapText @ sentence @ ''. '',
                countTokens enc overlapText + sentenceTokens))
         else (chunks, currentChunk @ sentence @ ''. '', currentTokens + sentenceTokens))"
| "item_step enc maxTokens overlapTokens (chunks, currentChunk, currentTokens) ParagraphBreak =
     (chunks, currentChunk @ [CHR 0x0A, CHR 0x0A], currentTokens)"

text \<open>
  The invariant of the loops after the items \<open>seen\<close>: the closed groups \<open>gs\<close> gave the
  chunks, the open group is in the buffer behind the seed, a group of two or more
  sentences is within the budget, every group after the first starts with the
  sentence that closed the chunk before it, and no closed group is empty.
\<close>

definition within_budget :: "int \<Rightarrow> nat \<Rightarrow> item list \<Rightarrow> bool" where
  "within_budget maxTokens tokens g = (int tokens \<le> maxTokens \<or> length (sentences_in g) \<le> 1)"

definition starts_with_sentence :: "item list \<Rightarrow> bool" where
  "starts_with_sentence g = (case g of Sentence s # rest \<Rightarrow> True | _ \<Rightarrow> False)"

definition chunker_inv :: "tokenizer \<Rightarrow> int \<Rightarrow> int \<Rightarrow> item list \<Rightarrow> cstate \<Rightarrow> bool" where
  "chunker_inv enc maxTokens overlapTokens seen st =
     (case st of (chunks, currentChunk, currentTokens) \<Rightarrow>
        (\<exists>gs opn prev.
           concat gs @ opn = seen \<and>
           foldl (emit_group enc overlapTokens) ([], None) gs = (chunks, prev) \<and>
           currentChunk =
             (case prev of None \<Rightarrow> [] | Some b \<Rightarrow> overlap_seed overlapTokens b)
             @ concat (map render opn) \<and>
           currentTokens =
             (case prev of None \<Rightarrow> 0 | Some b \<Rightarrow> countTokens enc (overlap_seed overlapTokens b))
             + sum_list (map (item_tokens enc) opn) \<and>
           list_all2 (\<lambda>c g. within_budget maxTokens (e_tokens c) g) chunks gs \<and>
           within_budget maxTokens currentTokens opn \<and>
           (gs \<noteq> [] \<longrightarrow> starts_with_sentence opn) \<and>
           list_all starts_with_sentence (tl gs) \<and>
           [] \<notin> set gs))"

section \<open>JavaScript numbers\<close>

text \<open>
  A JavaScript number is modelled as a real number or one of the three special
  values.  A finite result of an operation is exact (rounding to the nearest
  double is not modelled); a result beyond the largest double,
  \<open>Number.MAX_VALUE = (2^53 - 1) * 2^971\<close>, overflows to an infinity, and the
  special values follow IEEE 754.  Signed zeros are not modelled: a zero divisor
  counts as \<open>+0\<close>.
\<close>

datatype jsnum = Num real | PosInf | NegInf | NaN

definition max_double :: real where
  "max_double = (2 ^ 53 - 1) * 2 ^ 971"

definition js_fin :: "real \<Rightarrow> jsnum" where
  "js_fin x = (if max_double < x then PosInf else if x < - max_double then NegInf else Num x)"

fun js_neg :: "jsnum \<Rightarrow> jsnum" where
  "js_neg (Num x) = Num (- x)"
| "js_neg PosInf = NegInf"
| "js_neg NegInf = PosInf"
| "js_neg NaN = NaN"

fun js_add :: "jsnum \<Rightarrow> jsnum \<Rightarrow> jsnum" where
  "js_add (Num x) (Num y) = js_fin (x + y)"
| "js_add NaN b = NaN"
| "js_add a NaN = NaN"
| "js_add PosInf NegInf = NaN"
| "js_add NegInf PosInf = NaN"
| "js_add PosInf b = PosInf"
| "js_add a PosInf = PosInf"
| "js_add NegInf b = NegInf"
| "js_add a NegInf = NegInf"

definition js_sub :: "jsnum \<Rightarrow> jsnum \<Rightarrow> jsnum" where
  "js_sub a b = js_add a (js_neg b)"

fun js_mul :: "jsnum \<Rightarrow> jsnum \<Rightarrow> jsnum" where
  "js_mul (Num x) (Num y) = js_fin (x * y)"
| "js_mul NaN b = NaN"
| "js_mul a NaN = NaN"
| "js_mul (Num x) PosInf = (if x = 0 then NaN else if 0 < x then PosInf else NegInf)"
| "js_mul (Num x) NegInf = (if x = 0 then NaN else if 0 < x then NegInf else PosInf)"
| "js_mul PosInf (Num y) = (if y = 0 then NaN else if 0 < y then PosInf else NegInf)"
| "js_mul NegInf (Num y) = (if y = 0 then NaN else if 0 < y then NegInf else PosInf)"
| "js_mul PosInf PosInf = PosInf"
| "js_mul NegInf NegInf = PosInf"
| "js_mul PosInf NegInf = NegInf"
| "js_mul NegInf PosInf = NegInf"

fun js_div :: "jsnum \<Rightarrow> jsnum \<Rightarrow> jsnum" where
  "js_div (Num x) (Num y) =
     (if y = 0 then (if x = 0 then NaN else if 0 < x then PosInf else NegInf)
      else js_fin (x / y))"
| "js_div NaN b = NaN"
| "js_div a NaN = NaN"
| "js_div (Num x) b = Num 0"
| "js_div PosInf (Num y) = (if 0 \<le> y then PosInf else NegInf)"
| "js_div NegInf (Num y) = (if 0 \<le> y then NegInf else PosInf)"
| "js_div a b = NaN"

fun js_sqrt :: "jsnum \<Rightarrow> jsnum" where
  "js_sqrt (Num x) = (if x < 0 then NaN else js_fin (sqrt x))"
| "js_sqrt PosInf = PosInf"
| "js_sqrt NegInf = NaN"
| "js_sqrt NaN = NaN"

text \<open>\<open>Math.log\<close>: \<open>NaN\<close> below zero, \<open>-Infinity\<close> at zero.\<close>

fun js_log :: "jsnum \<Rightarrow> jsnum" where
  "js_log (Num x) = (if x < 0 then NaN else if x = 0 then NegInf else js_fin (ln x))"
| "js_log PosInf = PosInf"
| "js_log NegInf = NaN"
| "js_log NaN = NaN"

text \<open>An array length or a count of array elements as a number: an array holds
  fewer than \<open>2^32\<close> elements, so the count is a double.\<close>

definition js_nat :: "nat \<Rightarrow> jsnum" where
  "js_nat n = Num (real n)"

text \<open>\<open>v > 0\<close> and \<open>a <= b\<close>; every comparison with \<open>NaN\<close> is false.\<close>

fun js_positive :: "jsnum \<Rightarrow> bool" where
  "js_positive (Num x) = (0 < x)"
| "js_positive PosInf = True"
| "js_positive NegInf = False"
| "js_positive NaN = False"


text \<open>\<open>Math.min(...xs)\<close> and \<open>Math.max(...xs)\<close>: \<open>Infinity\<close> and \<open>-Infinity\<close> for no
  argument, \<open>NaN\<close> as soon as one argument is \<open>NaN\<close>.\<close>

fun js_min2 :: "jsnum \<Rightarrow> jsnum \<Rightarrow> jsnum" where
  "js_min2 (Num x) (Num y) = Num (min x y)"
| "js_min2 NaN b = NaN"
| "js_min2 a NaN = NaN"
| "js_min2 NegInf b = NegInf"
| "js_min2 a NegInf = NegInf"
| "js_min2 PosInf b = b"
| "js_min2 a PosInf = a"

fun js_max2 :: "jsnum \<Rightarrow> jsnum \<Rightarrow> jsnum" where
  "js_max2 (Num x) (Num y) = Num (max x y)"
| "js_max2 NaN b = NaN"
| "js_max2 a NaN = NaN"
| "js_max2 PosInf b = PosInf"
| "js_max2 a PosInf = PosInf"
| "js_max2 NegInf b = b"
| "js_max2 a NegInf = a"

definition Math_min :: "jsnum list \<Rightarrow> jsnum" where
  "Math_min xs = foldl js_min2 PosInf xs"

definition Math_max :: "jsnum list \<Rightarrow> jsnum" where
  "Math_max xs = foldl js_max2 NegInf xs"

section \<open>Lexical relevance (calculateTextRelevance)\<close>

text \<open>\<open>toLowerCase()\<close> up to \<open>U+00FF\<close>: the letters \<open>A\<close> to \<open>Z\<close> move to \<open>a\<close> to \<open>z\<close>, and
  the capital letters \<open>U+00C0\<close> to \<open>U+00DE\<close> (the multiplication sign \<open>U+00D7\<close>
  apart) move to \<open>U+00E0\<close> to \<open>U+00FE\<close>.\<close>

definition lower_char :: "char \<Rightarrow> char" where
  "lower_char c =
     (let n = (of_char c :: nat)
      in if (65 \<le> n \<and> n \<le> 90) \<or> (192 \<le> n \<and> n \<le> 222 \<and> n \<noteq> 215)
         then char_of (n + 32) else c)"

definition toLowerCase :: "string \<Rightarrow> string" where
  "toLowerCase s = map lower_char s"

text \<open>\<open>w.includes(x)\<close>: \<open>x\<close> occurs in \<open>w\<close> as a contiguous substring.\<close>

fun starts_with :: "string \<Rightarrow> string \<Rightarrow> bool" where
  "starts_with w [] = True"
| "starts_with [] (x # xs) = False"
| "starts_with (c # cs) (x # xs) = (c = x \<and> starts_with cs xs)"

fun js_includes :: "string \<Rightarrow> string \<Rightarrow> bool" where
  "js_includes [] x = (x = [])"
| "js_includes (c # cs) x = (starts_with (c # cs) x \<or> js_includes cs x)"

text \<open>The loop over \<open>queryWords\<close>, with the running \<open>score\<close>.\<close>

fun relevance_loop :: "string list \<Rightarrow> string list \<Rightarrow> jsnum \<Rightarrow> jsnum" where
  "relevance_loop [] textWords score = score"
| "relevance_loop (word # rest) textWords score =
     (if length word < 3 then relevance_loop rest textWords score
      else
        (let wordCount = length (filter (\<lambda>w. js_includes w word) textWords);
             textLength = length textWords
         in if wordCount > 0 then
              relevance_loop rest textWords
                (js_add score
                   (js_mul (js_div (js_nat wordCount) (js_nat textLength))
                      (js_log (js_add (Num 1) (js_div (js_nat textLength) (js_nat wordCount))))))
            else relevance_loop rest textWords score))"

definition calculateTextRelevance :: "string \<Rightarrow> string \<Rightarrow> jsnum" where
  "calculateTextRelevance query text =
     relevance_loop (split_runs is_space (toLowerCase query))
                    (split_runs is_space (toLowerCase text)) (Num 0)"

text \<open>A JavaScript string holds at most \<open>2^53 - 1\<close> code units.\<close>

definition js_string :: "string \<Rightarrow> bool" where
  "js_string s = (length s < 2 ^ 53)"

text \<open>The score as the specification words it: a sum over the lowercase
  whitespace-split query tokens of length at least 3.\<close>

definition matchCount :: "string \<Rightarrow> string \<Rightarrow> nat" where
  "matchCount text token =
     length (filter (\<lambda>w. js_includes w token) (split_runs is_space (toLowerCase text)))"

definition chunkTokenCount :: "string \<Rightarrow> nat" where
  "chunkTokenCount text = length (split_runs is_space (toLowerCase text))"

definition textScore_spec :: "string \<Rightarrow> string \<Rightarrow> real" where
  "textScore_spec query text =
     (\<Sum>token \<leftarrow> filter (\<lambda>t. 3 \<le> length t) (split_runs is_space (toLowerCase query)).
        if matchCount text token = 0 then 0
        else (real (matchCount text token) / real (chunkTokenCount text))
               * ln (1 + real (chunkTokenCount text) / real (matchCount text token)))"

section \<open>Cosine similarity (cosSim)\<close>

text \<open>Reading \<open>b[i]\<close> past the end of an array gives \<open>undefined\<close>, which is \<open>NaN\<close> in
  arithmetic.\<close>

definition elem :: "real list \<Rightarrow> nat \<Rightarrow> jsnum" where
  "elem xs i = (if i < length xs then Num (xs ! i) else NaN)"

text \<open>The \<open>for\<close> loop of \<open>cosSim\<close>: \<open>n\<close> rounds are left, \<open>i\<close> is the loop index, and
  the state is \<open>(dot, na, nb)\<close>.\<close>

fun cosSim_loop :: "real list \<Rightarrow> real list \<Rightarrow> nat \<Rightarrow> nat \<Rightarrow> jsnum \<times> jsnum \<times> jsnum
                     \<Rightarrow> jsnum \<times> jsnum \<times> jsnum" where
  "cosSim_loop a b i 0 acc = acc"
| "cosSim_loop a b i (Suc n) (dot, na, nb) =
     cosSim_loop a b (Suc i) n
       (js_add dot (js_mul (elem a i) (elem b i)),
        js_add na (js_mul (elem a i) (elem a i)),
        js_add nb (js_mul (elem b i) (elem b i)))"

definition cosSim :: "real list \<Rightarrow> real list \<Rightarrow> jsnum" where
  "cosSim a b =
     (case cosSim_loop a b 0 (length a) (Num 0, Num 0, Num 0) of
        (dot, na, nb) \<Rightarrow>
          js_div dot (js_add (js_mul (js_sqrt na) (js_sqrt nb)) (Num (1 / 10 ^ 12))))"

section \<open>The persisted index and the hybrid search (loadVectorStore)\<close>

text \<open>The metadata record that \<open>saveVectorStore\<close> writes for each chunk.\<close>

record chunk_meta =
  m_id :: string
  m_source :: string
  m_pageSpan :: string
  m_section :: string
  m_tags :: "string list"
  m_version :: string
  m_chunkIndex :: nat
  m_totalChunks :: nat
  m_originalLength :: nat
  m_tokens :: nat
  m_dateIngested :: string
  m_checksum :: string

text \<open>An entry of \<open>docs.json\<close> and a document handed to the caller.\<close>

record entry =
  en_text :: string
  en_metadata :: chunk_meta
  en_vector :: "real list"

record document =
  pageContent :: string
  metadata :: chunk_meta

text \<open>The three persisted files: \<open>vectors.json\<close> (\<open>ids\<close>, \<open>vectors\<close>), \<open>docs.json\<close>
  (\<open>docsMap\<close>) and \<open>meta.json\<close> (\<open>meta\<close>).\<close>

record store =
  st_ids :: "string list"
  st_vectors :: "real list list"
  st_docsMap :: "string \<rightharpoonup> entry"
  st_meta :: "chunk_meta list"

datatype js_error = TypeError | ZodError | FileNotFound

text \<open>
  The external collaborators: the tokenizer, the embedding model (one vector per
  text, \<open>embed(texts) = texts.map(embed_text)\<close>) and the MD5 digest of
  \<open>calculateChecksum\<close>.
\<close>

record env =
  env_enc :: tokenizer
  embed_text :: "string \<Rightarrow> real list"
  calculateChecksum :: "string \<Rightarrow> string"

definition embed :: "env \<Rightarrow> string list \<Rightarrow> real list list" where
  "embed E texts = map (embed_text E) texts"

text \<open>An array read \<open>xs[i]\<close>: \<open>undefined\<close> past the end.\<close>

definition nth_opt :: "'a list \<Rightarrow> nat \<Rightarrow> 'a option" where
  "nth_opt xs i = (if i < length xs then Some (xs ! i) else None)"

record score_row =
  s_id :: string
  s_idx :: nat
  vectorScore :: jsnum
  textScore :: jsnum

text \<open>
  One round of \<open>ids.map((id, idx) => ...)\<close>.  \<open>cosSim(q, undefined)\<close> throws a
  \<open>TypeError\<close> at the first read \<open>b[0]\<close>; when \<open>q\<close> is empty the loop reads nothing
  of \<open>b\<close>.  \<open>docsMap[id].text\<close> throws when the id has no entry.
\<close>

definition score_one :: "store \<Rightarrow> string \<Rightarrow> real list \<Rightarrow> string \<Rightarrow> nat \<Rightarrow> js_error + score_row" where
  "score_one S query q id' idx =
     (case (case nth_opt (st_vectors S) idx of
              Some v \<Rightarrow> Some (cosSim q v)
            | None \<Rightarrow> if q = [] then Some (cosSim q []) else None) of
        None \<Rightarrow> Inl TypeError
      | Some vs \<Rightarrow>
          (case st_docsMap S id' of
             None \<Rightarrow> Inl TypeError
           | Some e \<Rightarrow>
               Inr \<lparr>s_id = id', s_idx = idx, vectorScore = vs,
                    textScore = calculateTextRelevance query (en_text e)\<rparr>))"

text \<open>The map over \<open>ids\<close> from index \<open>idx\<close> on; the first throw ends it.\<close>

fun score_all :: "store \<Rightarrow> string \<Rightarrow> real list \<Rightarrow> string list \<Rightarrow> nat \<Rightarrow> js_error + score_row list" where
  "score_all S query q [] idx = Inr []"
| "score_all S query q (id' # rest) idx =
     (case score_one S query q id' idx of
        Inl e \<Rightarrow> Inl e
      | Inr row \<Rightarrow>
          (case score_all S query q rest (Suc idx) of
             Inl e \<Rightarrow> Inl e
           | Inr rows \<Rightarrow> Inr (row # rows)))"

record scored =
  sc_id :: string
  sc_score :: jsnum
  sc_doc :: document

text \<open>One round of \<open>scores.map(s => ...)\<close>: normalise and blend.\<close>

definition combine :: "store \<Rightarrow> jsnum \<Rightarrow> jsnum \<Rightarrow> jsnum \<Rightarrow> jsnum \<Rightarrow> score_row \<Rightarrow> js_error + scored" where
  "combine S minVec maxVec minTxt maxTxt s =
     (let normVec = js_div (js_sub (vectorScore s) minVec)
                           (js_add (js_sub maxVec minVec) (Num (1 / 10 ^ 9)));
          normTxt = js_div (js_sub (textScore s) minTxt)
                           (js_add (js_sub maxTxt minTxt) (Num (1 / 10 ^ 9)));
          combinedScore = js_add (js_mul normVec (Num (7 / 10))) (js_mul normTxt (Num (3 / 10)))
      in case st_docsMap S (s_id s) of
           None \<Rightarrow> Inl TypeError
         | Some e \<Rightarrow>
             Inr \<lparr>sc_id = s_id s, sc_score = combinedScore,
                  sc_doc = \<lparr>pageContent = en_text e, metadata = en_metadata e\<rparr>\<rparr>)"

fun combine_all :: "store \<Rightarrow> jsnum \<Rightarrow> jsnum \<Rightarrow> jsnum \<Rightarrow> jsnum \<Rightarrow> score_row list
                     \<Rightarrow> js_error + scored list" where
  "combine_all S minVec maxVec minTxt maxTxt [] = Inr []"
| "combine_all S minVec maxVec minTxt maxTxt (s # rest) =
     (case combine S minVec maxVec minTxt maxTxt s of
        Inl e \<Rightarrow> Inl e
      | Inr x \<Rightarrow>
          (case combine_all S minVec maxVec minTxt maxTxt rest of
             Inl e \<Rightarrow> Inl e
           | Inr xs \<Rightarrow> Inr (x # xs)))"

text \<open>
  \<open>scored.sort((a, b) => b.score - a.score)\<close>.  \<open>Array.prototype.sort\<close> is stable and
  puts \<open>a\<close> after \<open>b\<close> exactly when the comparator is positive; an insertion sort
  that moves an element past the elements it compares positive with gives the
  order every stable sort gives for a consistent comparator.
\<close>

definition compareFn :: "scored \<Rightarrow> scored \<Rightarrow> jsnum" where
  "compareFn a b = js_sub (sc_score b) (sc_score a)"

fun sort_insert :: "scored \<Rightarrow> scored list \<Rightarrow> scored list" where
  "sort_insert a [] = [a]"
| "sort_insert a (b # bs) =
     (if js_positive (compareFn a b) then b # sort_insert a bs else a # b # bs)"

fun js_sort :: "scored list \<Rightarrow> scored list" where
  "js_sort [] = []"
| "js_sort (a # as) = sort_insert a (js_sort as)"

definition similaritySearchWithScore ::
  "env \<Rightarrow> store \<Rightarrow> string \<Rightarrow> int \<Rightarrow> js_error + (document \<times> jsnum) list" where
  "similaritySearchWithScore E S query k =
     (let q = embed_text E query
      in case score_all S query q (st_ids S) 0 of
           Inl e \<Rightarrow> Inl e
         | Inr scores \<Rightarrow>
             (let vectorScores = map vectorScore scores;
                  textScores = map textScore scores;
                  minVec = Math_min vectorScores;
                  maxVec = Math_max vectorScores;
                  minTxt = Math_min textScores;
                  maxTxt = Math_max textScores
              in case combine_all S minVec maxVec minTxt maxTxt scores of
                   Inl e \<Rightarrow> Inl e
                 | Inr scored \<Rightarrow>
                     Inr (map (\<lambda>s. (sc_doc s, js_sub (Num 1) (sc_score s)))
                            (js_slice (js_sort scored) 0 k))))"

text \<open>
  A vector of moderate magnitude: the sum of the squares of its components is
  at most \<open>10^100\<close>, so that no sum or product of \<open>cosSim\<close> overflows.  The vectors
  of the embedder are normalised to unit length (\<open>normalize: true\<close>) and are of
  this kind.
\<close>

definition moderate :: "real list \<Rightarrow> bool" where
  "moderate v = ((\<Sum>i<length v. v ! i * v ! i) \<le> 10 ^ 100)"

text \<open>
  An index on which a search for \<open>query\<close> reads only what is there: each id has
  its vector, of moderate magnitude and with at least as many components as the
  query vector \<open>q\<close>, and its entry in \<open>docsMap\<close>, whose text is a JavaScript string;
  the query is a JavaScript string and its vector is of moderate magnitude.
\<close>

fun rows_ok :: "store \<Rightarrow> real list \<Rightarrow> string list \<Rightarrow> nat \<Rightarrow> bool" where
  "rows_ok S q [] idx = True"
| "rows_ok S q (id' # rest) idx =
     ((case nth_opt (st_vectors S) idx of
         None \<Rightarrow> False
       | Some v \<Rightarrow> length q \<le> length v \<and> moderate v) \<and>
      (case st_docsMap S id' of None \<Rightarrow> False | Some e \<Rightarrow> js_string (en_text e)) \<and>
      rows_ok S q rest (Suc idx))"

definition index_ok :: "env \<Rightarrow> store \<Rightarrow> string \<Rightarrow> bool" where
  "index_ok E S query =
     (js_string query \<and> moderate (embed_text E query) \<and>
      rows_ok S (embed_text E query) (st_ids S) 0)"

text \<open>
  The ranking as the specification words it, on real numbers.  \<open>cosine a b\<close> is the
  cosine similarity over the components of \<open>a\<close>, with the \<open>1e-12\<close> of the code in the
  denominator; \<open>normalise xs x\<close> is the min-max normalisation of \<open>x\<close> across the scores
  \<open>xs\<close>, with the \<open>1e-9\<close> in the denominator; \<open>candidates\<close> pairs each indexed chunk,
  in the order of the ids, with its combined score
  \<open>0.7 * normVector + 0.3 * normText\<close>.
\<close>

definition cosine :: "real list \<Rightarrow> real list \<Rightarrow> real" where
  "cosine a b =
     (\<Sum>i<length a. a ! i * b ! i)
     / (sqrt (\<Sum>i<length a. a ! i * a ! i) * sqrt (\<Sum>i<length a. b ! i * b ! i) + 1 / 10 ^ 12)"

definition normalise :: "real list \<Rightarrow> real \<Rightarrow> real" where
  "normalise xs x = (x - Min (set xs)) / (Max (set xs) - Min (set xs) + 1 / 10 ^ 9)"

definition doc_of :: "entry \<Rightarrow> document" where
  "doc_of e = \<lparr>pageContent = en_text e, metadata = en_metadata e\<rparr>"

text \<open>The entries of the ids, in the order of the ids.\<close>

definition indexed_entries :: "store \<Rightarrow> entry list" where
  "indexed_entries S = List.map_filter (st_docsMap S) (st_ids S)"

definition vectorScores_spec :: "env \<Rightarrow> store \<Rightarrow> string \<Rightarrow> real list" where
  "vectorScores_spec E S query =
     map (cosine (embed_text E query)) (take (length (st_ids S)) (st_vectors S))"

definition textScores_spec :: "store \<Rightarrow> string \<Rightarrow> real list" where
  "textScores_spec S query = map (\<lambda>e. textScore_spec query (en_text e)) (indexed_entries S)"

definition combined_scores :: "env \<Rightarrow> store \<Rightarrow> string \<Rightarrow> real list" where
  "combined_scores E S query =
     map2 (\<lambda>v t. 7 / 10 * normalise (vectorScores_spec E S query) v
                 + 3 / 10 * normalise (textScores_spec S query) t)
       (vectorScores_spec E S query) (textScores_spec S query)"

definition candidates :: "env \<Rightarrow> store \<Rightarrow> string \<Rightarrow> (document \<times> real) list" where
  "candidates E S query = zip (map doc_of (indexed_entries S)) (combined_scores E S query)"

text \<open>
  The ranking is \<open>sort_key (\<lambda>c. - snd c)\<close> of the candidates: by descending combined
  score, and, \<open>sort_key\<close> being stable, candidates of equal score in the order of the
  ids.  \<open>with_distance\<close> is the pair handed to the caller: the document and the
  distance \<open>1 - combined\<close>.
\<close>

definition with_distance :: "document \<times> real \<Rightarrow> document \<times> jsnum" where
  "with_distance c = (fst c, Num (1 - snd c))"

text \<open>
  What the two maps of the search compute on an index that is \<open>index_ok\<close>: a row of
  \<open>scores\<close> holds the two scores of a vector and an entry, and an element of
  \<open>scored\<close> holds the document and the combined score of a candidate, which lies
  between 0 and 1.
\<close>

definition row_of :: "store \<Rightarrow> string \<Rightarrow> real list \<Rightarrow> score_row \<Rightarrow> real list \<times> entry \<Rightarrow> bool" where
  "row_of S query q r ve =
     (vectorScore r = Num (cosine q (fst ve)) \<and>
      textScore r = Num (textScore_spec query (en_text (snd ve))) \<and>
      st_docsMap S (s_id r) = Some (snd ve) \<and>
      length q \<le> length (fst ve) \<and> moderate (fst ve) \<and> js_string (en_text (snd ve)))"

definition scored_of :: "scored \<Rightarrow> document \<times> real \<Rightarrow> bool" where
  "scored_of s c = (sc_doc s = fst c \<and> sc_score s = Num (snd c) \<and> 0 \<le> snd c \<and> snd c \<le> 1)"

section \<open>Sample data for running the model\<close>

text \<open>A two-dimensional embedding with unit vectors, a byte-level tokenizer and the
  identity as digest.\<close>

definition sample_embed :: "string \<Rightarrow> real list" where
  "sample_embed s = (if js_includes (toLowerCase s) ''pricing'' then [1, 0] else [0, 1])"

definition sample_env :: env where
  "sample_env = \<lparr>env_enc = byte_tokenizer, embed_text = sample_embed, calculateChecksum = id\<rparr>"

definition sample_meta :: "string \<Rightarrow> string \<Rightarrow> chunk_meta" where
  "sample_meta i src =
     \<lparr>m_id = i, m_source = src, m_pageSpan = ''Chunk 1/1'', m_section = [], m_tags = [],
      m_version = ''v3'', m_chunkIndex = 0, m_totalChunks = 1, m_originalLength = 0,
      m_tokens = 0, m_dateIngested = [], m_checksum = []\<rparr>"

definition sample_entry :: "string \<Rightarrow> string \<Rightarrow> string \<Rightarrow> entry" where
  "sample_entry i src txt =
     \<lparr>en_text = txt, en_metadata = sample_meta i src, en_vector = sample_embed txt\<rparr>"

definition store_one :: store where
  "store_one =
     \<lparr>st_ids = [''1''], st_vectors = [[1, 0]],
      st_docsMap = [''1'' \<mapsto> sample_entry ''1'' ''pricing.md'' ''pricing plan''],
      st_meta = [sample_meta ''1'' ''pricing.md'']\<rparr>"


definition store_empty :: store where
  "store_empty = \<lparr>st_ids = [], st_vectors = [], st_docsMap = Map.empty, st_meta = []\<rparr>"

section \<open>Writing the index (saveVectorStore)\<close>

text \<open>Decimal rendering of a non-negative integer, as a template literal does it.\<close>

definition digit_char :: "nat \<Rightarrow> char" where
  "digit_char d = char_of (48 + d)"

function show_nat :: "nat \<Rightarrow> string" where
  "show_nat n = (if n < 10 then [digit_char n] else show_nat (n div 10) @ [digit_char (n mod 10)])"
  by pat_completeness auto
termination
  by (relation "measure (\<lambda>n. n)") auto

declare show_nat.simps [simp del]

text \<open>A source document handed to \<open>saveVectorStore\<close>: \<open>pageContent\<close> and the fields of
  \<open>metadata\<close> that are read (\<open>source\<close>, \<open>section\<close>, \<open>tags\<close>).\<close>

record in_doc =
  in_pageContent :: string
  in_source :: string
  in_section :: string
  in_tags :: "string list"

text \<open>
  \<open>chunks.forEach((chunk, i) => ...)\<close> for one document.  \<open>idCounter\<close> is the counter
  before the round; \<open>clock n\<close> is what \<open>new Date().toISOString()\<close> returns when the
  chunk with id \<open>n\<close> is built.
\<close>

fun chunk_docs :: "env \<Rightarrow> (nat \<Rightarrow> string) \<Rightarrow> in_doc \<Rightarrow> nat \<Rightarrow> echunk list \<Rightarrow> nat \<Rightarrow> nat
                    \<Rightarrow> document list" where
  "chunk_docs E clock doc totalChunks [] i idCounter = []"
| "chunk_docs E clock doc totalChunks (chunk # rest) i idCounter =
     \<lparr>pageContent = e_text chunk,
      metadata =
        \<lparr>m_id = show_nat (Suc idCounter),
         m_source = in_source doc,
         m_pageSpan = ''Chunk '' @ show_nat (i + 1) @ ''/'' @ show_nat totalChunks,
         m_section = in_section doc,
         m_tags = in_tags doc,
         m_version = ''v3'',
         m_chunkIndex = i,
         m_totalChunks = totalChunks,
         m_originalLength = length (in_pageContent doc),
         m_tokens = e_tokens chunk,
         m_dateIngested = clock (Suc idCounter),
         m_checksum = calculateChecksum E (in_pageContent doc)\<rparr>\<rparr>
     # chunk_docs E clock doc totalChunks rest (Suc i) (Suc idCounter)"

text \<open>The loop over \<open>docs\<close>, chunking each with \<open>maxTokens = 800\<close> and
  \<open>overlapTokens = 120\<close>.\<close>

fun process_docs :: "env \<Rightarrow> (nat \<Rightarrow> string) \<Rightarrow> in_doc list \<Rightarrow> nat \<Rightarrow> document list" where
  "process_docs E clock [] idCounter = []"
| "process_docs E clock (doc # rest) idCounter =
     (let chunks = chunkTextEnhanced (env_enc E) (in_pageContent doc) 800 120
      in chunk_docs E clock doc (length chunks) chunks 0 idCounter
         @ process_docs E clock rest (idCounter + length chunks))"

text \<open>\<open>processedDocs.forEach((d, i) => docsMap[ids[i]] = {...})\<close>: a later write to the
  same id replaces the earlier one.\<close>

fun build_docsMap :: "document list \<Rightarrow> real list list \<Rightarrow> (string \<rightharpoonup> entry) \<Rightarrow> (string \<rightharpoonup> entry)" where
  "build_docsMap (d # ds) (v # vs) m =
     build_docsMap ds vs
       (m(m_id (metadata d) \<mapsto> \<lparr>en_text = pageContent d, en_metadata = metadata d, en_vector = v\<rparr>))"
| "build_docsMap ds vs m = m"

definition saveVectorStore :: "env \<Rightarrow> (nat \<Rightarrow> string) \<Rightarrow> in_doc list \<Rightarrow> store" where
  "saveVectorStore E clock docs =
     (let processedDocs = process_docs E clock docs 0;
          texts = map pageContent processedDocs;
          vectors = embed E texts;
          ids = map (\<lambda>d. m_id (metadata d)) processedDocs
      in \<lparr>st_ids = ids, st_vectors = vectors,
          st_docsMap = build_docsMap processedDocs vectors Map.empty,
          st_meta = map metadata processedDocs\<rparr>)"

section \<open>Change detection (checkDocumentStatus)\<close>

text \<open>
  A file of the docs directory as the code reads it: \<open>readFileSync(path, 'utf-8')\<close>,
  \<open>statSync(path)\<close> (size and modification time) and the text that pdf-parse
  extracts; \<open>None\<close> is a call that throws.  A directory is its listing, in the order
  of \<open>readdirSync\<close>.
\<close>

record fs_file =
  f_content :: "string option"
  f_stat :: "(nat \<times> nat) option"
  f_pdf_text :: "string option"

type_synonym dir = "(string \<times> fs_file) list"

definition endsWith :: "string \<Rightarrow> string \<Rightarrow> bool" where
  "endsWith s suffix =
     (length suffix \<le> length s \<and> drop (length s - length suffix) s = suffix)"

definition is_candidate :: "string \<Rightarrow> bool" where
  "is_candidate f = (endsWith f ''.pdf'' \<or> endsWith f ''.txt'' \<or> endsWith f ''.md'')"

text \<open>\<open>existingDocs\<close>: a \<open>Map\<close> from source to the set of its recorded checksums, in
  insertion order; \<open>chunks\<close> and \<open>lastIngested\<close> are stored and never read.\<close>

type_synonym existing = "(string \<times> string list) list"

definition add_meta :: "existing \<Rightarrow> chunk_meta \<Rightarrow> existing" where
  "add_meta ex m =
     (let ex' = (if m_source m \<in> set (map fst ex) then ex else ex @ [(m_source m, [])])
      in map (\<lambda>(s, cs). if s = m_source m then (s, cs @ [m_checksum m]) else (s, cs)) ex')"

definition group_meta :: "chunk_meta list \<Rightarrow> existing" where
  "group_meta ms = foldl add_meta [] ms"

text \<open>The fingerprint of a listed file; \<open>None\<close> when reading it throws.\<close>

definition current_checksum :: "env \<Rightarrow> string \<Rightarrow> fs_file \<Rightarrow> string option" where
  "current_checksum E filename fl =
     (if endsWith filename ''.pdf'' then
        (case f_stat fl of
           None \<Rightarrow> None
         | Some (fsize, mtime) \<Rightarrow>
             Some (calculateChecksum E
                     (filename @ ''-'' @ show_nat fsize @ ''-'' @ show_nat mtime)))
      else map_option (calculateChecksum E) (f_content fl))"

record status =
  unchanged :: "string list"
  modified :: "string list"
  new :: "string list"
  deleted :: "string list"

text \<open>One round of \<open>files.forEach\<close>; the \<open>catch\<close> puts the file into \<open>modified\<close>.\<close>

definition classify :: "env \<Rightarrow> existing \<Rightarrow> status \<Rightarrow> string \<times> fs_file \<Rightarrow> status" where
  "classify E existingDocs st entry =
     (case entry of (filename, fl) \<Rightarrow>
        (case current_checksum E filename fl of
           None \<Rightarrow> st\<lparr>modified := modified st @ [filename]\<rparr>
         | Some currentChecksum \<Rightarrow>
             (case map_of existingDocs filename of
                Some checksums \<Rightarrow>
                  if currentChecksum \<in> set checksums
                  then st\<lparr>unchanged := unchanged st @ [filename]\<rparr>
                  else st\<lparr>modified := modified st @ [filename]\<rparr>
              | None \<Rightarrow> st\<lparr>new := new st @ [filename]\<rparr>)))"

text \<open>One round of \<open>existingDocs.forEach\<close>.\<close>

definition check_deleted :: "string list \<Rightarrow> status \<Rightarrow> string \<times> string list \<Rightarrow> status" where
  "check_deleted files st e =
     (if fst e \<in> set files then st else st\<lparr>deleted := deleted st @ [fst e]\<rparr>)"

text \<open>The status check; \<open>None\<close> is the \<open>null\<close> returned when \<open>readdirSync\<close> throws
  (\<open>loadMeta\<close> itself never throws).\<close>

definition checkDocumentStatus :: "env \<Rightarrow> chunk_meta list \<Rightarrow> dir option \<Rightarrow> status option" where
  "checkDocumentStatus E meta docsDir =
     (case docsDir of
        None \<Rightarrow> None
      | Some listing \<Rightarrow>
          (let existingDocs = group_meta meta;
               files = filter (\<lambda>(f, fl). is_candidate f) listing;
               st0 = \<lparr>unchanged = [], modified = [], new = [], deleted = []\<rparr>;
               st1 = foldl (classify E existingDocs) st0 files
           in Some (foldl (check_deleted (map fst files)) st1 existingDocs)))"

text \<open>The checksums recorded for a source in the metadata snapshot.\<close>

definition recorded_checksums :: "chunk_meta list \<Rightarrow> string \<Rightarrow> string set" where
  "recorded_checksums ms f = set (map m_checksum (filter (\<lambda>m. m_source m = f) ms))"

text \<open>The three outcomes of one round of \<open>files.forEach\<close>, as predicates on the
  listed file.\<close>

definition is_unchanged :: "env \<Rightarrow> existing \<Rightarrow> string \<times> fs_file \<Rightarrow> bool" where
  "is_unchanged E ex e =
     (case current_checksum E (fst e) (snd e) of
        None \<Rightarrow> False
      | Some c \<Rightarrow> (case map_of ex (fst e) of None \<Rightarrow> False | Some cs \<Rightarrow> c \<in> set cs))"

definition is_modified :: "env \<Rightarrow> existing \<Rightarrow> string \<times> fs_file \<Rightarrow> bool" where
  "is_modified E ex e =
     (case current_checksum E (fst e) (snd e) of
        None \<Rightarrow> True
      | Some c \<Rightarrow> (case map_of ex (fst e) of None \<Rightarrow> False | Some cs \<Rightarrow> c \<notin> set cs))"

definition is_new :: "env \<Rightarrow> existing \<Rightarrow> string \<times> fs_file \<Rightarrow> bool" where
  "is_new E ex e =
     (case current_checksum E (fst e) (snd e) of
        None \<Rightarrow> False
      | Some c \<Rightarrow> (case map_of ex (fst e) of None \<Rightarrow> True | Some cs \<Rightarrow> False))"

text \<open>Sample files and records.\<close>

definition readable :: "string \<Rightarrow> fs_file" where
  "readable c = \<lparr>f_content = Some c, f_stat = Some (length c, 0), f_pdf_text = None\<rparr>"

definition unreadable :: fs_file where
  "unreadable = \<lparr>f_content = None, f_stat = None, f_pdf_text = None\<rparr>"

definition sample_record :: "string \<Rightarrow> string \<Rightarrow> chunk_meta" where
  "sample_record src content = (sample_meta ''1'' src)\<lparr>m_checksum := content\<rparr>"

definition sample_records :: "chunk_meta list" where
  "sample_records =
     [sample_record ''a.txt'' ''Alpha.'', sample_record ''b.txt'' ''Beta.'',
      sample_record ''d.txt'' ''Delta.'']"

definition sample_listing :: dir where
  "sample_listing =
     [(''a.txt'', readable ''Alpha.''), (''b.txt'', readable ''Beta two.''),
      (''c.md'', readable ''Gamma.''), (''e.md'', unreadable),
      (''notes.docx'', readable ''Notes.'')]"


section \<open>The ingestion script\<close>

text \<open>\<open>inferTags(content, filename)\<close>.\<close>

definition inferTags :: "string \<Rightarrow> string \<Rightarrow> string list" where
  "inferTags content filename =
     (let lowerContent = toLowerCase content;
          lowerFilename = toLowerCase filename;
          has = (\<lambda>w. js_includes lowerContent w \<or> js_includes lowerFilename w);
          tags =
            (if has ''pricing'' then [''pricing''] else []) @
            (if has ''retention'' then [''retention''] else []) @
            (if has ''offer'' then [''offers''] else []) @
            (if has ''conversion'' then [''conversion''] else []) @
            (if has ''playbook'' then [''playbook''] else []) @
            (if has ''strategy'' then [''strategy''] else []) @
            (if has ''marketing'' then [''marketing''] else []) @
            (if has ''sales'' then [''sales''] else []) @
            (if endsWith filename ''.pdf'' then [''pdf''] else []) @
            (if endsWith filename ''.txt'' then [''text''] else []) @
            (if endsWith filename ''.md'' then [''markdown''] else [])
      in if length tags > 0 then tags else [''business'', ''document''])"

text \<open>
  Reading one file of \<open>filesToProcess\<close>: the extracted text of a PDF, the content of
  any other file; \<open>None\<close> when the read or the extraction throws, which the loop
  logs and skips.  The script reads the docs directory that the status check
  listed.
\<close>

definition read_document :: "dir \<Rightarrow> string \<Rightarrow> string option" where
  "read_document listing filename =
     (case map_of listing filename of
        None \<Rightarrow> None
      | Some fl \<Rightarrow> if endsWith filename ''.pdf'' then f_pdf_text fl else f_content fl)"

text \<open>The loop that builds \<open>documents\<close>; \<open>tags\<close> is the \<open>--tags=\<close> argument.\<close>

fun build_documents :: "dir \<Rightarrow> string list option \<Rightarrow> string list \<Rightarrow> in_doc list" where
  "build_documents listing tags [] = []"
| "build_documents listing tags (filename # rest) =
     (case read_document listing filename of
        None \<Rightarrow> build_documents listing tags rest
      | Some content \<Rightarrow>
          (let detectedTags = (case tags of None \<Rightarrow> [] | Some ts \<Rightarrow> ts);
               detectedTags' = (if length detectedTags = 0 then inferTags content filename
                                else detectedTags)
           in \<lparr>in_pageContent = content, in_source = filename, in_section = [],
                in_tags = detectedTags'\<rparr>
              # build_documents listing tags rest))"

text \<open>
  \<open>filesToProcess\<close>: \<open>Inl code\<close> is \<open>process.exit(code)\<close>.  \<open>targetFile\<close> is the \<open>--file=\<close>
  argument; an absent or empty argument selects the full mode.  With \<open>status\<close>
  \<open>null\<close> every \<open>status?.\<close> test is false and every \<open>status?.x || []\<close> is empty.
\<close>

definition filesToProcess :: "string option \<Rightarrow> status option \<Rightarrow> nat + string list" where
  "filesToProcess targetFile st =
     (let new' = (case st of None \<Rightarrow> [] | Some s \<Rightarrow> new s);
          modified' = (case st of None \<Rightarrow> [] | Some s \<Rightarrow> modified s);
          unchanged' = (case st of None \<Rightarrow> [] | Some s \<Rightarrow> unchanged s)
      in case (case targetFile of None \<Rightarrow> None | Some t \<Rightarrow> if t = [] then None else Some t) of
           Some t \<Rightarrow>
             if t \<in> set new' \<or> t \<in> set modified' then Inr [t]
             else if t \<in> set unchanged' then Inl 0
             else Inl 1
         | None \<Rightarrow>
             (let files = new' @ modified'
              in if length files = 0 then Inl 0 else Inr files))"

text \<open>
  One run of the script on the persisted state \<open>S\<close>: the exit code and the persisted
  state afterwards.  \<open>loadMeta\<close> reads \<open>meta.json\<close>; \<open>saveVectorStore\<close> overwrites the
  three files with the chunks of \<open>documents\<close>.
\<close>

definition ingest :: "env \<Rightarrow> (nat \<Rightarrow> string) \<Rightarrow> string option \<Rightarrow> string list option
                       \<Rightarrow> dir option \<Rightarrow> store \<Rightarrow> nat \<times> store" where
  "ingest E clock targetFile tags docsDir S =
     (let st = checkDocumentStatus E (st_meta S) docsDir
      in case filesToProcess targetFile st of
           Inl code \<Rightarrow> (code, S)
         | Inr files \<Rightarrow>
             (let documents =
                    build_documents (case docsDir of None \<Rightarrow> [] | Some l \<Rightarrow> l) tags files
              in if length documents = 0 then (1, S)
                 else (0, saveVectorStore E clock documents)))"

text \<open>
  A full rebuild as the specification words it: the index regenerated from all
  known source files, which is what the earlier ingestion scripts of the
  repository do (they hand every \<open>.pdf\<close>, \<open>.txt\<close> and \<open>.md\<close> file of the docs
  directory to \<open>saveVectorStore\<close>).
\<close>

definition full_rebuild :: "env \<Rightarrow> (nat \<Rightarrow> string) \<Rightarrow> string list option \<Rightarrow> dir \<Rightarrow> store" where
  "full_rebuild E clock tags listing =
     saveVectorStore E clock
       (build_documents listing tags (map fst (filter (\<lambda>(f, fl). is_candidate f) listing)))"

text \<open>The index content of the idempotence property: ids, vectors and texts.\<close>

definition index_content :: "store \<Rightarrow> string list \<times> real list list \<times> string list" where
  "index_content S =
     (st_ids S, st_vectors S,
      map (\<lambda>i. case st_docsMap S i of None \<Rightarrow> [] | Some e \<Rightarrow> en_text e) (st_ids S))"

definition sample_clock :: "nat \<Rightarrow> string" where
  "sample_clock n = ''2025-01-01T00:00:0'' @ show_nat n @ ''.000Z''"

definition two_files :: dir where
  "two_files = [(''a.txt'', readable ''Alpha.''), (''b.txt'', readable ''Beta.'')]"

text \<open>A directory with one PDF file, of size 6 and modification time 0, from which
  pdf-parse extracts \<open>Alpha.\<close>\<close>

definition one_pdf :: dir where
  "one_pdf =
     [(''a.pdf'', \<lparr>f_content = None, f_stat = Some (6, 0), f_pdf_text = Some ''Alpha.''\<rparr>)]"

section \<open>The ask handler (src/pages/api/ask.ts)\<close>

record ask_body =
  b_query :: string
  b_systemPrompt :: string
  b_k :: "int option"

record formatted_context =
  fc_id :: string
  fc_text :: string
  fc_source :: string
  fc_score :: string
  fc_tags :: "string list"
  fc_pageSpan :: string
  fc_chunkIndex :: nat
  fc_totalChunks :: nat

record ask_json =
  answer :: string
  contexts :: "formatted_context list"
  totalDocuments :: nat
  searchResults :: nat
  system :: string
  insufficient :: bool
  noContext :: "bool option"

datatype response = Status200 ask_json | Status400 string

text \<open>
  What the handler calls outside the repository: \<open>score.toFixed(3)\<close>,
  \<open>Math.random().toString()\<close> for the context at a position, the answer generation
  of \<open>generateEnhanced\<close> (an HTTP call with a fallback text) and the message of a
  thrown error.
\<close>

record ask_env =
  toFixed3 :: "jsnum \<Rightarrow> string"
  random_string :: "nat \<Rightarrow> string"
  generateEnhanced :: "string \<Rightarrow> string \<Rightarrow> (document \<times> jsnum) list \<Rightarrow> string"
  error_message :: "js_error \<Rightarrow> string"

text \<open>\<open>x || fallback\<close> on strings: the empty string is falsy.\<close>

definition or_else :: "string \<Rightarrow> string \<Rightarrow> string" where
  "or_else x fallback = (if x = [] then fallback else x)"

fun format_contexts :: "ask_env \<Rightarrow> nat \<Rightarrow> (document \<times> jsnum) list \<Rightarrow> formatted_context list" where
  "format_contexts A i [] = []"
| "format_contexts A i ((doc, score) # rest) =
     \<lparr>fc_id = or_else (m_id (metadata doc)) (random_string A i),
      fc_text = pageContent doc,
      fc_source = or_else (m_source (metadata doc)) ''Unknown'',
      fc_score = toFixed3 A score,
      fc_tags = m_tags (metadata doc),
      fc_pageSpan = m_pageSpan (metadata doc),
      fc_chunkIndex = m_chunkIndex (metadata doc),
      fc_totalChunks = m_totalChunks (metadata doc)\<rparr>
     # format_contexts A (Suc i) rest"

definition insufficientResponse :: "string \<Rightarrow> nat \<Rightarrow> nat \<Rightarrow> string" where
  "insufficientResponse query nmeta ncontexts =
     ''Insufficient corpus for query: '' @ [CHR 0x22] @ query @ [CHR 0x22, CHR 0x0A, CHR 0x0A] @
     ''**Available documents:** '' @ show_nat nmeta @ '' total'' @ [CHR 0x0A] @
     ''**Relevant chunks found:** '' @ show_nat ncontexts @ [CHR 0x0A, CHR 0x0A] @
     ''**Recommendation:** Upload more documents related to this topic or try a different query.''"

definition noContextResponse :: "string \<Rightarrow> nat \<Rightarrow> string" where
  "noContextResponse query nmeta =
     ''No relevant content found for query: '' @ [CHR 0x22] @ query @ [CHR 0x22, CHR 0x0A, CHR 0x0A] @
     ''**Available documents:** '' @ show_nat nmeta @ '' total'' @ [CHR 0x0A] @
     ''**Search results:** 0'' @ [CHR 0x0A, CHR 0x0A] @
     ''**Possible issues:**'' @ [CHR 0x0A] @
     ''- Query doesn't match any document content'' @ [CHR 0x0A] @
     ''- Documents may not be properly indexed'' @ [CHR 0x0A] @
     ''- Try re-running ingestion with: npm run ingest'' @ [CHR 0x0A, CHR 0x0A] @
     ''**Recommendation:** Check your documents and try a different query or re-index your documents.''"

text \<open>The handler after the retrieval: the three branches in the order of the
  source.\<close>

definition respond :: "ask_env \<Rightarrow> string \<Rightarrow> string \<Rightarrow> chunk_meta list \<Rightarrow> (document \<times> jsnum) list
                        \<Rightarrow> ask_json" where
  "respond A query systemPrompt meta ctxs =
     (let formattedContexts = format_contexts A 0 ctxs
      in if length ctxs < 2 then
           \<lparr>answer = insufficientResponse query (length meta) (length ctxs),
            contexts = formattedContexts,
            totalDocuments = length meta,
            searchResults = length ctxs,
            system = ''enhanced'',
            insufficient = True,
            noContext = None\<rparr>
         else if length ctxs = 0 then
           \<lparr>answer = noContextResponse query (length meta),
            contexts = [],
            totalDocuments = length meta,
            searchResults = 0,
            system = ''enhanced'',
            insufficient = True,
            noContext = Some True\<rparr>
         else
           \<lparr>answer = generateEnhanced A systemPrompt query ctxs,
            contexts = formattedContexts,
            totalDocuments = length meta,
            searchResults = length ctxs,
            system = ''enhanced'',
            insufficient = False,
            noContext = None\<rparr>)"

text \<open>
  The handler: the schema (\<open>query\<close> of at least 3 characters, \<open>systemPrompt\<close> of at
  least 10, \<open>k\<close> defaulting to 8), the retrieval, the response; every throw ends
  in status 400.  \<open>None\<close> for the store is an index whose files cannot be read.
\<close>

definition handler :: "env \<Rightarrow> ask_env \<Rightarrow> store option \<Rightarrow> ask_body \<Rightarrow> response" where
  "handler E A store body =
     (if length (b_query body) < 3 \<or> length (b_systemPrompt body) < 10
      then Status400 (or_else (error_message A ZodError) ''bad request'')
      else
        (case store of
           None \<Rightarrow> Status400 (or_else (error_message A FileNotFound) ''bad request'')
         | Some S \<Rightarrow>
             (case similaritySearchWithScore E S (b_query body)
                     (case b_k body of None \<Rightarrow> 8 | Some k \<Rightarrow> k) of
                Inl e \<Rightarrow> Status400 (or_else (error_message A e) ''bad request'')
              | Inr ctxs \<Rightarrow>
                  Status200 (respond A (b_query body) (b_systemPrompt body) (st_meta S) ctxs))))"

text \<open>Two runs of the script: the first on a directory that holds \<open>a.txt\<close> and an
  empty index, the second after \<open>b.txt\<close> was added.\<close>

definition store_after_first :: store where
  "store_after_first =
     snd (ingest sample_env sample_clock None None (Some [(''a.txt'', readable ''Alpha.'')])
            store_empty)"

definition store_after_second :: store where
  "store_after_second =
     snd (ingest sample_env sample_clock None None (Some two_files) store_after_first)"

definition sample_ask_env :: ask_env where
  "sample_ask_env =
     \<lparr>toFixed3 = (\<lambda>x. ''1.000''), random_string = (\<lambda>i. ''0.5''),
      generateEnhanced = (\<lambda>systemPrompt query ctxs. ''generated answer''),
      error_message = (\<lambda>e. ''error'')\<rparr>"

definition sample_body :: ask_body where
  "sample_body =
     \<lparr>b_query = ''pricing'', b_systemPrompt = ''Answer from the context.'', b_k = None\<rparr>"

section \<open>Termination of the token-window chunker\<close>

lemma chunkText_loop_terminates:
  assumes "overlapTokens < maxTokens"
  shows "\<exists>r. chunkText_loop enc ids maxTokens overlapTokens start chunks = Some r"
proof (induction "nat (int (length ids) - start)" arbitrary: start chunks rule: less_induct)
  case less
  show ?case
  proof (cases "start < int (length ids)")
    case False
    then show ?thesis by (subst chunkText_loop.simps) simp
  next
    case True
    define e where "e = min (start + maxTokens) (int (length ids))"
    show ?thesis
    proof (cases "e = int (length ids)")
      case True
      with \<open>start < int (length ids)\<close> show ?thesis
        by (subst chunkText_loop.simps) (simp add: e_def Let_def)
    next
      case False
      have "nat (int (length ids) - (start + (maxTokens - overlapTokens)))
              < nat (int (length ids) - start)"
        using assms True by linarith
      from less[OF this] obtain r where
        "chunkText_loop enc ids maxTokens overlapTokens (start + (maxTokens - overlapTokens))
           (chunks @ [\<lparr>w_text = decode enc (js_slice ids start e), w_start = start, w_end = e\<rparr>])
         = Some r"
        by blast
      with True False show ?thesis
        by (subst chunkText_loop.simps) (simp add: e_def Let_def)
    qed
  qed
qed

text \<open>A run that returns from a state with \<open>maxTokens \<le> overlapTokens\<close> and more tokens
  than the window started at a positive index: from \<open>start \<le> 0\<close> the window never
  reaches the end of the tokens and the step \<open>maxTokens - overlapTokens\<close> is not
  positive.\<close>

lemma chunkText_loop_Some_start:
  assumes run: "chunkText_loop enc ids maxTokens overlapTokens start chunks = Some r"
  shows "maxTokens \<le> overlapTokens \<longrightarrow> maxTokens < int (length ids) \<longrightarrow> ids \<noteq> []
           \<longrightarrow> 0 < start"
proof (rule chunkText_loop.raw_induct
    [where P = "\<lambda>enc ids M ov start chunks r.
       M \<le> ov \<longrightarrow> M < int (length ids) \<longrightarrow> ids \<noteq> [] \<longrightarrow> 0 < start", OF _ run])
  fix f enc ids M ov start chunks r
  assume IH: "\<And>enc ids M ov start chunks r. f enc ids M ov start chunks = Some r \<Longrightarrow>
           M \<le> ov \<longrightarrow> M < int (length ids) \<longrightarrow> ids \<noteq> [] \<longrightarrow> 0 < start"
    and eq: "(if start < int (length ids) then
        (let e = min (start + M) (int (length ids));
             sub = js_slice ids start e;
             chunks' = chunks @ [\<lparr>w_text = decode enc sub, w_start = start, w_end = e\<rparr>]
         in if e = int (length ids) then Some chunks'
            else f enc ids M ov (start + (M - ov)) chunks')
      else Some chunks) = Some r"
  show "M \<le> ov \<longrightarrow> M < int (length ids) \<longrightarrow> ids \<noteq> [] \<longrightarrow> 0 < start"
  proof (intro impI, rule ccontr)
    assume le: "M \<le> ov" and len: "M < int (length ids)" and ne: "ids \<noteq> []"
    assume "\<not> 0 < start"
    then have s: "start \<le> 0" by simp
    with ne have lt: "start < int (length ids)" by (cases ids) auto
    from s len have nend: "min (start + M) (int (length ids)) \<noteq> int (length ids)"
      by linarith
    from eq lt nend have "\<exists>c. f enc ids M ov (start + (M - ov)) c = Some r"
      by (auto simp: Let_def split: if_splits)
    then obtain c where "f enc ids M ov (start + (M - ov)) c = Some r" ..
    from IH[OF this] le len ne s show False by linarith
  qed
qed

lemma chunkText_loop_diverges:
  assumes "maxTokens \<le> overlapTokens" "maxTokens < int (length ids)" "ids \<noteq> []" "start \<le> 0"
  shows "chunkText_loop enc ids maxTokens overlapTokens start chunks = None"
proof (cases "chunkText_loop enc ids maxTokens overlapTokens start chunks")
  case None
  then show ?thesis .
next
  case (Some r)
  from chunkText_loop_Some_start[OF Some] assms show ?thesis by simp
qed

text \<open>
  C10.  The token-window chunker returns for every text when
  \<open>overlapTokens < maxTokens\<close>: the loop index grows by \<open>maxTokens - overlapTokens > 0\<close>
  in each round until the window reaches the end.  When
  \<open>overlapTokens \<ge> maxTokens\<close> and the text has more than \<open>maxTokens\<close> tokens, the call
  never returns (\<open>None\<close>): the window never reaches the end of the tokens and the
  index does not advance.  The number of tokens is compared with the budget as a
  count, \<open>nat maxTokens < length ids\<close>, so a text with more tokens than the budget has
  at least one token.
\<close>

theorem chunkText_termination:
  "(overlapTokens < maxTokens \<longrightarrow>
      (\<exists>r. chunkText enc text maxTokens overlapTokens = Some r)) \<and>
   (maxTokens \<le> overlapTokens \<and> nat maxTokens < length (encode enc text) \<longrightarrow>
      chunkText enc text maxTokens overlapTokens = None)"
proof (intro conjI impI)
  assume "overlapTokens < maxTokens"
  then show "\<exists>r. chunkText enc text maxTokens overlapTokens = Some r"
    unfolding chunkText_def by (rule chunkText_loop_terminates)
next
  assume a: "maxTokens \<le> overlapTokens \<and> nat maxTokens < length (encode enc text)"
  then have "maxTokens < int (length (encode enc text))" "encode enc text \<noteq> []"
    by auto
  with a show "chunkText enc text maxTokens overlapTokens = None"
    unfolding chunkText_def by (intro chunkText_loop_diverges) simp_all
qed

theorem chunkText_termination_witness:
  "(1::int) < 4 \<and> (\<exists>r. chunkText byte_tokenizer ''hello world'' 4 1 = Some r) \<and>
   (4::int) \<le> 4 \<and> nat 4 < length (encode byte_tokenizer ''hello world'') \<and>
   chunkText byte_tokenizer ''hello world'' 4 4 = None"
  using chunkText_termination [of 1 4 byte_tokenizer "''hello world''"]
    chunkText_termination [of 4 4 byte_tokenizer "''hello world''"]
  by (simp add: byte_tokenizer_def)

section \<open>The token budget of the sentence-accumulating chunker\<close>

text \<open>The two loops as one loop over the items of the text.\<close>

lemma sentence_loop_items:
  "sentence_loop enc M ov ss st =
     foldl (item_step enc M ov) st (map Sentence (filter (\<lambda>s. trim s \<noteq> []) ss))"
proof (induction ss arbitrary: st)
  case Nil
  then show ?case by simp
next
  case (Cons s ss)
  obtain chunks cur toks where st: "st = (chunks, cur, toks)" by (cases st) auto
  show ?case unfolding st by (simp add: Let_def Cons.IH)
qed

lemma paragraph_loop_items:
  "paragraph_loop enc M ov ps st =
     foldl (item_step enc M ov) st
       (concat (map paragraph_items (filter (\<lambda>p. trim p \<noteq> []) ps)))"
proof (induction ps arbitrary: st)
  case Nil
  then show ?case by simp
next
  case (Cons p ps)
  show ?case
  proof (cases "trim p = []")
    case True
    then show ?thesis by (simp add: Cons.IH)
  next
    case False
    obtain chunks cur toks where
      sl: "foldl (item_step enc M ov) st
             (map Sentence (filter (\<lambda>s. trim s \<noteq> []) (split_runs is_terminator p)))
           = (chunks, cur, toks)"
      by (metis prod_cases3)
    show ?thesis using False sl
      by (simp add: Cons.IH sentence_loop_items paragraph_items_def)
  qed
qed

lemma dropWhile_all_iff: "(\<forall>x\<in>set (dropWhile P s). P x) \<longleftrightarrow> (\<forall>x\<in>set s. P x)"
  by (induction s) auto

lemma trim_empty_iff: "trim s = [] \<longleftrightarrow> (\<forall>c\<in>set s. is_space c)"
  by (simp add: trim_def dropWhile_eq_Nil_conv dropWhile_all_iff)

lemma render_not_empty: "render it \<noteq> []"
  by (cases it) auto

lemma concat_render_empty: "concat (map render g) = [] \<longleftrightarrow> g = []"
  by (cases g) (auto simp: render_not_empty)

lemma js_slice_from_seed:
  "0 < ov \<Longrightarrow> js_slice_from b (- (ov * 4)) = overlap_seed ov b"
  by (auto simp: js_slice_from_def rel_index_def overlap_seed_def max_def nat_diff_distrib' intro: arg_cong2[where f=drop])

lemma overlap_seed_length: "0 < ov \<Longrightarrow> length (overlap_seed ov b) \<le> nat (ov * 4)"
  by (simp add: overlap_seed_def)


lemma sentences_in_append: "sentences_in (a @ b) = sentences_in a @ sentences_in b"
  by (induction a rule: sentences_in.induct) auto

lemma starts_with_sentence_append: "starts_with_sentence g \<Longrightarrow> starts_with_sentence (g @ h)"
  by (cases g) (auto simp: starts_with_sentence_def split: item.splits)

lemma within_budget_break:
  "within_budget M n g \<Longrightarrow> within_budget M n (g @ [ParagraphBreak])"
  by (simp add: within_budget_def sentences_in_append)

lemma emit_group_snoc:
  assumes "foldl (emit_group enc ov) ([], None) gs = (chunks, prev)"
    "cur = (case prev of None \<Rightarrow> [] | Some b \<Rightarrow> overlap_seed ov b) @ concat (map render opn)"
    "toks = (case prev of None \<Rightarrow> 0 | Some b \<Rightarrow> countTokens enc (overlap_seed ov b))
            + sum_list (map (item_tokens enc) opn)"
  shows "foldl (emit_group enc ov) ([], None) (gs @ [opn]) =
           (push_chunk chunks cur toks, Some cur)"
  using assms by (cases prev) (simp_all add: emit_group_def Let_def)

lemma tl_snoc_starts:
  assumes "list_all starts_with_sentence (tl gs)" "gs \<noteq> [] \<longrightarrow> starts_with_sentence opn"
  shows "list_all starts_with_sentence (tl (gs @ [opn]))"
  using assms by (cases gs) auto

lemma chunker_inv_step:
  assumes ov: "0 < ov" and inv: "chunker_inv enc M ov seen st"
  shows "chunker_inv enc M ov (seen @ [it]) (item_step enc M ov st it)"
proof -
  obtain chunks cur toks where st: "st = (chunks, cur, toks)" by (cases st) auto
  from inv obtain gs opn prev where
    seen: "concat gs @ opn = seen" and
    emitted: "foldl (emit_group enc ov) ([], None) gs = (chunks, prev)" and
    cur: "cur = (case prev of None \<Rightarrow> [] | Some b \<Rightarrow> overlap_seed ov b) @ concat (map render opn)" and
    toks: "toks = (case prev of None \<Rightarrow> 0 | Some b \<Rightarrow> countTokens enc (overlap_seed ov b))
                  + sum_list (map (item_tokens enc) opn)" and
    closed_ok: "list_all2 (\<lambda>c g. within_budget M (e_tokens c) g) chunks gs" and
    opn_ok: "within_budget M toks opn" and
    opn_starts: "gs \<noteq> [] \<longrightarrow> starts_with_sentence opn" and
    closed_start: "list_all starts_with_sentence (tl gs)" and
    closed_ne: "[] \<notin> set gs"
    unfolding st chunker_inv_def by auto
  show ?thesis
  proof (cases it)
    case ParagraphBreak
    have "chunker_inv enc M ov (seen @ [ParagraphBreak]) (chunks, cur @ [CHR 0x0A, CHR 0x0A], toks)"
      unfolding chunker_inv_def prod.case
    proof (intro exI[of _ gs] exI[of _ "opn @ [ParagraphBreak]"] exI[of _ prev] conjI)
      show "concat gs @ opn @ [ParagraphBreak] = seen @ [ParagraphBreak]"
        using seen by simp
      show "cur @ [CHR 0x0A, CHR 0x0A] =
          (case prev of None \<Rightarrow> [] | Some b \<Rightarrow> overlap_seed ov b)
          @ concat (map render (opn @ [ParagraphBreak]))"
        using cur by simp
      show "toks = (case prev of None \<Rightarrow> 0 | Some b \<Rightarrow> countTokens enc (overlap_seed ov b))
                  + sum_list (map (item_tokens enc) (opn @ [ParagraphBreak]))"
        using toks by simp
      show "within_budget M toks (opn @ [ParagraphBreak])"
        using opn_ok by (rule within_budget_break)
      show "gs \<noteq> [] \<longrightarrow> starts_with_sentence (opn @ [ParagraphBreak])"
        using opn_starts by (simp add: starts_with_sentence_append)
    qed (fact emitted closed_ok closed_start closed_ne)+
    then show ?thesis by (simp add: st ParagraphBreak)
  next
    case (Sentence s)
    show ?thesis
    proof (cases "int (toks + countTokens enc s) > M \<and> cur \<noteq> []")
      case True
      then have True': "cur \<noteq> []" by simp
      let ?seed = "overlap_seed ov cur"
      have "chunker_inv enc M ov (seen @ [Sentence s])
              (push_chunk chunks cur toks, ?seed @ s @ ''. '',
               countTokens enc ?seed + countTokens enc s)"
        unfolding chunker_inv_def prod.case
      proof (intro exI[of _ "gs @ [opn]"] exI[of _ "[Sentence s]"] exI[of _ "Some cur"] conjI)
        show "concat (gs @ [opn]) @ [Sentence s] = seen @ [Sentence s]"
          using seen by simp
        show "foldl (emit_group enc ov) ([], None) (gs @ [opn]) =
                (push_chunk chunks cur toks, Some cur)"
          by (rule emit_group_snoc[OF emitted cur toks])
        show "?seed @ s @ ''. '' =
            (case Some cur of None \<Rightarrow> [] | Some b \<Rightarrow> overlap_seed ov b)
            @ concat (map render [Sentence s])"
          by simp
        show "countTokens enc ?seed + countTokens enc s =
            (case Some cur of None \<Rightarrow> 0 | Some b \<Rightarrow> countTokens enc (overlap_seed ov b))
            + sum_list (map (item_tokens enc) [Sentence s])"
          by simp
        show "list_all2 (\<lambda>c g. within_budget M (e_tokens c) g)
                (push_chunk chunks cur toks) (gs @ [opn])"
          unfolding push_chunk_def using closed_ok opn_ok
          by (intro list_all2_appendI) simp_all
        show "within_budget M (countTokens enc ?seed + countTokens enc s) [Sentence s]"
          by (simp add: within_budget_def)
        show "gs @ [opn] \<noteq> [] \<longrightarrow> starts_with_sentence [Sentence s]"
          by (simp add: starts_with_sentence_def)
        show "list_all starts_with_sentence (tl (gs @ [opn]))"
          by (rule tl_snoc_starts[OF closed_start opn_starts])
        have "opn \<noteq> []"
        proof (cases "gs = []")
          case True
          with emitted have "prev = None" by simp
          with cur True' show ?thesis by auto
        next
          case False
          with opn_starts show ?thesis by (auto simp: starts_with_sentence_def)
        qed
        with closed_ne show "[] \<notin> set (gs @ [opn])" by simp
      qed
      with True show ?thesis
        by (simp add: st Sentence Let_def js_slice_from_seed[OF ov])
    next
      case False
      have budget: "within_budget M (toks + countTokens enc s) (opn @ [Sentence s])"
      proof (cases "cur = []")
        case True
        with cur have "concat (map render opn) = []" by simp
        then have "opn = []" by (simp only: concat_render_empty)
        then show ?thesis by (simp add: within_budget_def)
      next
        case nonempty: False
        with False have "int (toks + countTokens enc s) \<le> M" by simp
        then show ?thesis by (simp add: within_budget_def)
      qed
      have "chunker_inv enc M ov (seen @ [Sentence s])
              (chunks, cur @ s @ ''. '', toks + countTokens enc s)"
        unfolding chunker_inv_def prod.case
      proof (intro exI[of _ gs] exI[of _ "opn @ [Sentence s]"] exI[of _ prev] conjI)
        show "concat gs @ opn @ [Sentence s] = seen @ [Sentence s]"
          using seen by simp
        show "cur @ s @ ''. '' =
            (case prev of None \<Rightarrow> [] | Some b \<Rightarrow> overlap_seed ov b)
            @ concat (map render (opn @ [Sentence s]))"
          using cur by simp
        show "toks + countTokens enc s =
            (case prev of None \<Rightarrow> 0 | Some b \<Rightarrow> countTokens enc (overlap_seed ov b))
            + sum_list (map (item_tokens enc) (opn @ [Sentence s]))"
          using toks by simp
        show "gs \<noteq> [] \<longrightarrow> starts_with_sentence (opn @ [Sentence s])"
          using opn_starts by (simp add: starts_with_sentence_append)
      qed (fact emitted closed_ok closed_start closed_ne budget)+
      with False show ?thesis
        by (auto simp: st Sentence Let_def)
    qed
  qed
qed

lemma chunker_inv_foldl:
  assumes "0 < ov" "chunker_inv enc M ov seen st"
  shows "chunker_inv enc M ov (seen @ its) (foldl (item_step enc M ov) st its)"
  using assms(2)
proof (induction its arbitrary: seen st)
  case Nil
  then show ?case by simp
next
  case (Cons it its)
  from Cons.IH[OF chunker_inv_step[OF assms(1) Cons.prems, of it]]
  show ?case by simp
qed

lemma chunker_inv_init: "chunker_inv enc M ov [] ([], [], 0)"
  unfolding chunker_inv_def prod.case
  by (intro exI[of _ "[]"] exI[of _ None]) (simp add: within_budget_def)


lemma sentences_of_items: "sentences_of text = sentences_in (items_of text)"
proof -
  have a: "sentences_in (map Sentence ss) = ss" for ss
    by (induction ss) auto
  have b: "sentences_in (paragraph_items p) = filter (\<lambda>s. trim s \<noteq> []) (split_runs is_terminator p)" for p
    by (simp add: paragraph_items_def sentences_in_append a)
  have c: "sentences_in (concat (map paragraph_items ps)) =
           filter (\<lambda>s. trim s \<noteq> []) (concat (map (split_runs is_terminator) ps))" for ps
    by (induction ps) (simp_all add: sentences_in_append b)
  show ?thesis by (simp add: sentences_of_def items_of_def c)
qed

lemma sentences_nonblank: "s \<in> set (sentences_of text) \<Longrightarrow> trim s \<noteq> []"
  by (simp add: sentences_of_def)

lemma item_tokens_sum:
  "sum_list (map (item_tokens enc) g) = sum_list (map (countTokens enc) (sentences_in g))"
  by (induction g rule: sentences_in.induct) auto

lemma render_breaks_blank:
  "sentences_in g = [] \<Longrightarrow> c \<in> set (concat (map render g)) \<Longrightarrow> is_space c"
  by (induction g rule: sentences_in.induct) (auto simp: is_space_def)

lemma render_holds_sentence:
  "s \<in> set (sentences_in g) \<Longrightarrow> set s \<subseteq> set (concat (map render g))"
  by (induction g rule: sentences_in.induct) auto

lemma starts_with_sentence_in: "starts_with_sentence g \<Longrightarrow> sentences_in g \<noteq> []"
  by (cases g) (auto simp: starts_with_sentence_def split: item.splits)

lemma emit_group_fst:
  "\<exists>c. fst (emit_group enc ov (chunks, prev) g) = chunks @ [c] \<and>
       sum_list (map (item_tokens enc) g) \<le> e_tokens c"
  by (simp add: emit_group_def Let_def push_chunk_def)

lemma emitted_tokens:
  "list_all2 (\<lambda>c g. sum_list (map (item_tokens enc) g) \<le> e_tokens c)
     (fst (foldl (emit_group enc ov) ([], None) groups)) groups"
proof (induction groups rule: rev_induct)
  case Nil
  then show ?case by simp
next
  case (snoc g groups)
  obtain chunks prev where f: "foldl (emit_group enc ov) ([], None) groups = (chunks, prev)"
    by (cases "foldl (emit_group enc ov) ([], None) groups") auto
  from emit_group_fst[of enc ov chunks prev g] obtain c where
    c: "fst (emit_group enc ov (chunks, prev) g) = chunks @ [c]"
       "sum_list (map (item_tokens enc) g) \<le> e_tokens c"
    by blast
  from snoc f have "list_all2 (\<lambda>c g. sum_list (map (item_tokens enc) g) \<le> e_tokens c) chunks groups"
    by simp
  with c show ?case by (simp add: f list_all2_appendI)
qed

lemma oversized_alone:
  assumes budget: "list_all2 (\<lambda>c g. int (e_tokens c) \<le> M \<or> length (sentences_in g) \<le> 1) chunks groups"
    and tokens: "list_all2 (\<lambda>c g. sum_list (map (item_tokens enc) g) \<le> e_tokens c) chunks groups"
    and g: "g \<in> set groups" and s: "s \<in> set (sentences_in g)"
    and over: "M < int (countTokens enc s)"
  shows "sentences_in g = [s]"
proof -
  from g obtain j where j: "j < length groups" "groups ! j = g"
    by (auto simp: in_set_conv_nth)
  from budget j have b: "int (e_tokens (chunks ! j)) \<le> M \<or> length (sentences_in g) \<le> 1"
    by (auto simp: list_all2_conv_all_nth)
  from tokens j have "sum_list (map (item_tokens enc) g) \<le> e_tokens (chunks ! j)"
    by (auto simp: list_all2_conv_all_nth)
  moreover have "countTokens enc s \<le> sum_list (map (countTokens enc) (sentences_in g))"
    using s by (intro member_le_sum_list) auto
  ultimately have "countTokens enc s \<le> e_tokens (chunks ! j)"
    by (simp add: item_tokens_sum)
  with over b have "length (sentences_in g) \<le> 1" by linarith
  with s show ?thesis by (cases "sentences_in g") auto
qed

lemma chunkTextEnhanced_groups:
  assumes ov: "0 < ov"
  shows "\<exists>groups.
     chunkTextEnhanced enc text M ov = chunks_of_groups enc ov groups \<and>
     (if sentences_of text = [] then groups = [] else concat groups = items_of text) \<and>
     list_all2 (\<lambda>c g. within_budget M (e_tokens c) g) (chunkTextEnhanced enc text M ov) groups \<and>
     list_all starts_with_sentence (tl groups) \<and> [] \<notin> set groups"
proof -
  obtain chunks cur toks where
    pl: "paragraph_loop enc M ov (split_paragraphs text) ([], [], 0) = (chunks, cur, toks)"
    by (cases "paragraph_loop enc M ov (split_paragraphs text) ([], [], 0)") auto
  have "chunker_inv enc M ov ([] @ items_of text)
          (foldl (item_step enc M ov) ([], [], 0) (items_of text))"
    by (rule chunker_inv_foldl[OF ov chunker_inv_init])
  with pl have "chunker_inv enc M ov (items_of text) (chunks, cur, toks)"
    by (simp add: paragraph_loop_items items_of_def)
  then obtain gs opn prev where
    seen: "concat gs @ opn = items_of text" and
    emitted: "foldl (emit_group enc ov) ([], None) gs = (chunks, prev)" and
    cur: "cur = (case prev of None \<Rightarrow> [] | Some b \<Rightarrow> overlap_seed ov b) @ concat (map render opn)" and
    toks: "toks = (case prev of None \<Rightarrow> 0 | Some b \<Rightarrow> countTokens enc (overlap_seed ov b))
                  + sum_list (map (item_tokens enc) opn)" and
    gs_ok: "list_all2 (\<lambda>c g. within_budget M (e_tokens c) g) chunks gs" and
    opn_ok: "within_budget M toks opn" and
    opn_starts: "gs \<noteq> [] \<longrightarrow> starts_with_sentence opn" and
    gs_start: "list_all starts_with_sentence (tl gs)" and
    gs_ne: "[] \<notin> set gs"
    unfolding chunker_inv_def by auto
  have sents: "sentences_of text = sentences_in (concat gs) @ sentences_in opn"
    using seen by (simp add: sentences_of_items sentences_in_append[symmetric])
  show ?thesis
  proof (cases "sentences_in opn = []")
    case True
    with opn_starts have gs: "gs = []" using starts_with_sentence_in by blast
    with emitted have chunks: "chunks = []" and prev: "prev = None" by simp_all
    from cur prev have "cur = concat (map render opn)" by simp
    with render_breaks_blank[OF True] have "\<forall>c\<in>set cur. is_space c"
      by blast
    then have "trim cur = []" by (simp add: trim_empty_iff)
    with pl chunks have "chunkTextEnhanced enc text M ov = []"
      by (simp add: chunkTextEnhanced_def)
    moreover from True gs sents have "sentences_of text = []" by simp
    ultimately show ?thesis
      by (intro exI[of _ "[]"]) (simp add: chunks_of_groups_def)
  next
    case False
    then obtain s where s: "s \<in> set (sentences_in opn)" by (cases "sentences_in opn") auto
    with sents have "s \<in> set (sentences_of text)" by simp
    then have "trim s \<noteq> []" by (rule sentences_nonblank)
    then obtain c where c: "c \<in> set s" "\<not> is_space c" by (auto simp: trim_empty_iff)
    from render_holds_sentence[OF s] c(1) cur have "c \<in> set cur" by auto
    with c(2) have "trim cur \<noteq> []" by (auto simp: trim_empty_iff)
    with pl have res: "chunkTextEnhanced enc text M ov = push_chunk chunks cur toks"
      by (simp add: chunkTextEnhanced_def)
    have fold: "foldl (emit_group enc ov) ([], None) (gs @ [opn]) =
                  (push_chunk chunks cur toks, Some cur)"
      by (rule emit_group_snoc[OF emitted cur toks])
    have cg: "chunks_of_groups enc ov (gs @ [opn]) = push_chunk chunks cur toks"
      unfolding chunks_of_groups_def fold by simp
    have "list_all2 (\<lambda>c g. within_budget M (e_tokens c) g)
            (push_chunk chunks cur toks) (gs @ [opn])"
      unfolding push_chunk_def using gs_ok opn_ok by (intro list_all2_appendI) simp_all
    moreover from False sents have "sentences_of text \<noteq> []" by simp
    moreover have "list_all starts_with_sentence (tl (gs @ [opn]))"
      by (rule tl_snoc_starts[OF gs_start opn_starts])
    moreover from False gs_ne have "[] \<notin> set (gs @ [opn])" by auto
    ultimately show ?thesis
      using seen by (intro exI[of _ "gs @ [opn]"]) (simp add: res cg)
  qed
qed

text \<open>
  C3 (amended), for \<open>overlapTokens > 0\<close>.  The chunker returns for every text, and
  its chunks come from a partition of the items of the text (its sentences, with
  the paragraph breaks) into consecutive groups, one chunk for each group and in
  the same order, so that no sentence is dropped: chunk \<open>j\<close> has the index \<open>j\<close>, its
  text is the trimmed buffer made of the overlap seed (the trailing
  \<open>overlapTokens * 4\<close> characters of the buffer of chunk \<open>j - 1\<close>; the first chunk
  has no seed) followed by the items of group \<open>j\<close>, and its recorded token count
  is the count of the seed plus the counts of the sentences of the group.  The
  recorded count is at most \<open>maxTokens\<close> unless the group holds at most one
  sentence; the count of a chunk that holds the seed and one sentence is not
  bounded by \<open>maxTokens\<close>, also when no sentence is above the budget.  A sentence
  whose own count is above \<open>maxTokens\<close> is the only sentence of its group: exactly
  one chunk is emitted for it.  Every group after the first starts with the
  sentence that closed the chunk before it, and no group is empty.  When the
  text has no sentence, no chunk is emitted.
\<close>

theorem chunkTextEnhanced_token_budget:
  assumes "0 < overlapTokens"
  shows "\<exists>groups.
     chunkTextEnhanced enc text maxTokens overlapTokens =
       chunks_of_groups enc overlapTokens groups \<and>
     (if sentences_of text = [] then groups = [] else concat groups = items_of text) \<and>
     list_all2 (\<lambda>c g. int (e_tokens c) \<le> maxTokens \<or> length (sentences_in g) \<le> 1)
       (chunkTextEnhanced enc text maxTokens overlapTokens) groups \<and>
     (\<forall>g\<in>set groups. \<forall>s\<in>set (sentences_in g).
        maxTokens < int (countTokens enc s) \<longrightarrow> sentences_in g = [s]) \<and>
     (\<forall>g\<in>set (tl groups). \<exists>s rest. g = Sentence s # rest) \<and>
     [] \<notin> set groups"
proof -
  from chunkTextEnhanced_groups[OF assms, of enc "text" maxTokens] obtain groups where
    eq: "chunkTextEnhanced enc text maxTokens overlapTokens =
           chunks_of_groups enc overlapTokens groups" and
    part: "if sentences_of text = [] then groups = [] else concat groups = items_of text" and
    budget: "list_all2 (\<lambda>c g. within_budget maxTokens (e_tokens c) g)
               (chunkTextEnhanced enc text maxTokens overlapTokens) groups" and
    starts: "list_all starts_with_sentence (tl groups)" and
    nonempty: "[] \<notin> set groups"
    by blast
  have budget': "list_all2 (\<lambda>c g. int (e_tokens c) \<le> maxTokens \<or> length (sentences_in g) \<le> 1)
       (chunkTextEnhanced enc text maxTokens overlapTokens) groups"
    using budget by (simp add: within_budget_def)
  have tokens: "list_all2 (\<lambda>c g. sum_list (map (item_tokens enc) g) \<le> e_tokens c)
       (chunkTextEnhanced enc text maxTokens overlapTokens) groups"
    unfolding eq chunks_of_groups_def by (rule emitted_tokens)
  have alone: "\<forall>g\<in>set groups. \<forall>s\<in>set (sentences_in g).
        maxTokens < int (countTokens enc s) \<longrightarrow> sentences_in g = [s]"
    using oversized_alone[OF budget' tokens] by blast
  have starts': "\<forall>g\<in>set (tl groups). \<exists>s rest. g = Sentence s # rest"
  proof
    fix g assume "g \<in> set (tl groups)"
    with starts have "starts_with_sentence g" by (simp add: list_all_iff)
    then show "\<exists>s rest. g = Sentence s # rest"
      by (cases g) (auto simp: starts_with_sentence_def split: item.splits)
  qed
  from eq part budget' alone starts' nonempty show ?thesis by blast
qed

text \<open>A run with a sentence above the budget: with \<open>maxTokens = 2\<close>, \<open>overlapTokens = 1\<close>
  and one token per character, the sentence \<open>bbbbb\<close> of \<open>a.bbbbb.c.\<close> has five
  tokens.  The chunk before it is closed, and it is the one sentence of the
  second chunk, behind the seed \<open>a. \<close>.\<close>

lemma chunkTextEnhanced_oversized_example:
  "chunkTextEnhanced byte_tokenizer ''a.bbbbb.c.'' 2 1 =
     [\<lparr>e_text = ''a.'', e_start = 0, e_end = 1, e_tokens = 1\<rparr>,
      \<lparr>e_text = ''a. bbbbb.'', e_start = 1, e_end = 2, e_tokens = 8\<rparr>,
      \<lparr>e_text = ''bb. c.'', e_start = 2, e_end = 3, e_tokens = 5\<rparr>]"
  by code_simp

lemma chunks_of_groups_oversized_example:
  "chunks_of_groups byte_tokenizer 1
     [[Sentence ''a''], [Sentence ''bbbbb''], [Sentence ''c'', ParagraphBreak]] =
     [\<lparr>e_text = ''a.'', e_start = 0, e_end = 1, e_tokens = 1\<rparr>,
      \<lparr>e_text = ''a. bbbbb.'', e_start = 1, e_end = 2, e_tokens = 8\<rparr>,
      \<lparr>e_text = ''bb. c.'', e_start = 2, e_end = 3, e_tokens = 5\<rparr>]"
  by code_simp

lemma items_of_oversized_example:
  "items_of ''a.bbbbb.c.'' = [Sentence ''a'', Sentence ''bbbbb'', Sentence ''c'', ParagraphBreak]"
  by code_simp

theorem chunkTextEnhanced_token_budget_witness:
  "(0::int) < 1 \<and>
   (\<exists>groups.
     chunkTextEnhanced byte_tokenizer ''a.bbbbb.c.'' 2 1 = chunks_of_groups byte_tokenizer 1 groups \<and>
     (if sentences_of ''a.bbbbb.c.'' = [] then groups = []
      else concat groups = items_of ''a.bbbbb.c.'') \<and>
     list_all2 (\<lambda>c g. int (e_tokens c) \<le> 2 \<or> length (sentences_in g) \<le> 1)
       (chunkTextEnhanced byte_tokenizer ''a.bbbbb.c.'' 2 1) groups \<and>
     (\<forall>g\<in>set groups. \<forall>s\<in>set (sentences_in g).
        2 < int (countTokens byte_tokenizer s) \<longrightarrow> sentences_in g = [s]) \<and>
     (\<forall>g\<in>set (tl groups). \<exists>s rest. g = Sentence s # rest) \<and>
     [] \<notin> set groups) \<and>
   chunkTextEnhanced byte_tokenizer ''a.bbbbb.c.'' 2 1 =
     chunks_of_groups byte_tokenizer 1
       [[Sentence ''a''], [Sentence ''bbbbb''], [Sentence ''c'', ParagraphBreak]] \<and>
   concat [[Sentence ''a''], [Sentence ''bbbbb''], [Sentence ''c'', ParagraphBreak]] =
     items_of ''a.bbbbb.c.'' \<and>
   map e_tokens (chunkTextEnhanced byte_tokenizer ''a.bbbbb.c.'' 2 1) = [1, 8, 5]"
proof -
  have p: "(0::int) < 1" by simp
  note inst = chunkTextEnhanced_token_budget[OF p, of byte_tokenizer "''a.bbbbb.c.''" 2]
  have a: "chunkTextEnhanced byte_tokenizer ''a.bbbbb.c.'' 2 1 =
     chunks_of_groups byte_tokenizer 1
       [[Sentence ''a''], [Sentence ''bbbbb''], [Sentence ''c'', ParagraphBreak]]"
    by (simp only: chunkTextEnhanced_oversized_example chunks_of_groups_oversized_example)
  have b: "concat [[Sentence ''a''], [Sentence ''bbbbb''], [Sentence ''c'', ParagraphBreak]] =
     items_of ''a.bbbbb.c.''"
    by (simp add: items_of_oversized_example)
  have c: "map e_tokens (chunkTextEnhanced byte_tokenizer ''a.bbbbb.c.'' 2 1) = [1, 8, 5]"
    by (simp add: chunkTextEnhanced_oversized_example)
  from p inst a b c show ?thesis by (intro conjI)
qed

text \<open>
  C3 as stated fails: with \<open>maxTokens = 2\<close>, \<open>overlapTokens = 1\<close> and one token per
  character, every sentence of \<open>a.b.c.\<close> has one token, and the second chunk
  records five tokens: four of the overlap seed and one of the sentence \<open>c\<close>.
\<close>

lemma chunkTextEnhanced_example:
  "chunkTextEnhanced byte_tokenizer ''a.b.c.'' 2 1 =
     [\<lparr>e_text = ''a. b.'', e_start = 0, e_end = 1, e_tokens = 2\<rparr>,
      \<lparr>e_text = ''b. c.'', e_start = 1, e_end = 2, e_tokens = 5\<rparr>]"
  by code_simp

lemma sentences_of_example: "sentences_of ''a.b.c.'' = [''a'', ''b'', ''c'']"
  by code_simp

theorem chunkTextEnhanced_token_budget_counterexample:
  "map e_tokens (chunkTextEnhanced byte_tokenizer ''a.b.c.'' 2 1) = [2, 5] \<and>
   map (countTokens byte_tokenizer) (sentences_of ''a.b.c.'') = [1, 1, 1]"
proof -
  have "map (countTokens byte_tokenizer) [''a'', ''b'', ''c''] = [1, 1, 1]"
    by (simp add: countTokens_def byte_tokenizer_def)
  then show ?thesis
    by (simp only: chunkTextEnhanced_example sentences_of_example) simp
qed

section \<open>Determinism of the two chunkers\<close>

text \<open>
  Both chunkers read their arguments and the tokenizer only: no clock, no random
  number and no variable that outlives the call.  With the tokenizer of
  js-tiktoken a function of the text, each chunker is a function of
  \<open>(text, maxTokens, overlapTokens)\<close>.
\<close>

lemma chunkText_example:
  "chunkText byte_tokenizer ''hello world'' 4 1 =
     Some [\<lparr>w_text = ''hell'', w_start = 0, w_end = 4\<rparr>,
           \<lparr>w_text = ''lo w'', w_start = 3, w_end = 7\<rparr>,
           \<lparr>w_text = ''worl'', w_start = 6, w_end = 10\<rparr>,
           \<lparr>w_text = ''ld'', w_start = 9, w_end = 11\<rparr>]"
  by code_simp

lemma chunkText_loop_step:
  assumes "start < int (length ids)" "e = min (start + M) (int (length ids))"
    "e \<noteq> int (length ids)"
  shows "chunkText_loop enc ids M ov start chunks =
         chunkText_loop enc ids M ov (start + (M - ov))
           (chunks @ [\<lparr>w_text = decode enc (js_slice ids start e), w_start = start, w_end = e\<rparr>])"
  by (subst chunkText_loop.simps, insert assms(1,3), unfold assms(2))
     (simp only: Let_def if_True if_False)

lemma chunkText_loop_last:
  assumes "start < int (length ids)" "e = min (start + M) (int (length ids))"
    "e = int (length ids)"
  shows "chunkText_loop enc ids M ov start chunks =
         Some (chunks @ [\<lparr>w_text = decode enc (js_slice ids start e), w_start = start, w_end = e\<rparr>])"
  by (subst chunkText_loop.simps, insert assms(1,3), unfold assms(2))
     (simp only: Let_def if_True refl)

lemma chunkText_loop_decode:
  assumes run: "chunkText_loop enc ids maxTokens overlapTokens start chunks = Some r"
  shows "\<forall>enc'::tokenizer. (\<forall>sub. decode enc sub = decode enc' sub) \<longrightarrow>
           chunkText_loop enc' ids maxTokens overlapTokens start chunks = Some r"
proof (rule chunkText_loop.raw_induct
    [where P = "\<lambda>enc ids M ov start chunks r.
       \<forall>enc'::tokenizer. (\<forall>sub. decode enc sub = decode enc' sub) \<longrightarrow>
           chunkText_loop enc' ids M ov start chunks = Some r", OF _ run])
  fix f enc ids M ov start chunks r
  assume IH: "\<And>enc ids M ov start chunks r. f enc ids M ov start chunks = Some r \<Longrightarrow>
           \<forall>enc'::tokenizer. (\<forall>sub. decode enc sub = decode enc' sub) \<longrightarrow>
             chunkText_loop enc' ids M ov start chunks = Some r"
    and eq: "(if start < int (length ids) then
        (let e = min (start + M) (int (length ids));
             sub = js_slice ids start e;
             chunks' = chunks @ [\<lparr>w_text = decode enc sub, w_start = start, w_end = e\<rparr>]
         in if e = int (length ids) then Some chunks'
            else f enc ids M ov (start + (M - ov)) chunks')
      else Some chunks) = Some r"
  show "\<forall>enc'::tokenizer. (\<forall>sub. decode enc sub = decode enc' sub) \<longrightarrow>
           chunkText_loop enc' ids M ov start chunks = Some r"
  proof (intro allI impI)
    fix enc' :: tokenizer assume d: "\<forall>sub. decode enc sub = decode enc' sub"
    show "chunkText_loop enc' ids M ov start chunks = Some r"
    proof (cases "start < int (length ids)")
      case False
      with eq show ?thesis by (subst chunkText_loop.simps) simp
    next
      case True
      define e where "e = min (start + M) (int (length ids))"
      show ?thesis
      proof (cases "e = int (length ids)")
        case True
        from eq \<open>start < int (length ids)\<close> have "(if e = int (length ids)
            then Some (chunks @ [\<lparr>w_text = decode enc (js_slice ids start e), w_start = start, w_end = e\<rparr>])
            else f enc ids M ov (start + (M - ov))
              (chunks @ [\<lparr>w_text = decode enc (js_slice ids start e), w_start = start, w_end = e\<rparr>]))
            = Some r"
          unfolding e_def by (simp only: Let_def if_True)
        with True have "r = chunks @
            [\<lparr>w_text = decode enc (js_slice ids start e), w_start = start, w_end = e\<rparr>]"
          by simp
        with chunkText_loop_last[OF \<open>start < int (length ids)\<close> e_def True, of enc' ov chunks] d
        show ?thesis by simp
      next
        case False
        from eq True have "(if e = int (length ids)
            then Some (chunks @ [\<lparr>w_text = decode enc (js_slice ids start e), w_start = start, w_end = e\<rparr>])
            else f enc ids M ov (start + (M - ov))
              (chunks @ [\<lparr>w_text = decode enc (js_slice ids start e), w_start = start, w_end = e\<rparr>]))
            = Some r"
          unfolding e_def by (simp only: Let_def if_True)
        with False have "f enc ids M ov (start + (M - ov))
            (chunks @ [\<lparr>w_text = decode enc (js_slice ids start e), w_start = start, w_end = e\<rparr>])
            = Some r"
          by simp
        from IH[OF this] d have "chunkText_loop enc' ids M ov (start + (M - ov))
            (chunks @ [\<lparr>w_text = decode enc (js_slice ids start e), w_start = start, w_end = e\<rparr>])
            = Some r" by blast
        with chunkText_loop_step[OF True e_def False, of enc' ov chunks] d
        show ?thesis by simp
      qed
    qed
  qed
qed

lemma chunkText_loop_cong:
  assumes "\<forall>sub. decode enc1 sub = decode enc2 sub"
  shows "chunkText_loop enc1 ids maxTokens overlapTokens start chunks =
         chunkText_loop enc2 ids maxTokens overlapTokens start chunks"
proof (cases "chunkText_loop enc1 ids maxTokens overlapTokens start chunks")
  case (Some r)
  from chunkText_loop_decode[OF Some] assms Some show ?thesis by simp
next
  case None
  show ?thesis
  proof (cases "chunkText_loop enc2 ids maxTokens overlapTokens start chunks")
    case (Some r)
    from chunkText_loop_decode[OF Some] assms have
      "chunkText_loop enc1 ids maxTokens overlapTokens start chunks = Some r" by simp
    with None show ?thesis by simp
  next
    case n2: None
    with None show ?thesis by simp
  qed
qed

lemma sentence_loop_cong:
  assumes "\<forall>s. countTokens enc1 s = countTokens enc2 s"
  shows "sentence_loop enc1 M ov ss st = sentence_loop enc2 M ov ss st"
proof (induction ss arbitrary: st)
  case Nil
  show ?case by simp
next
  case (Cons s ss)
  obtain chunks cur toks where st: "st = (chunks, cur, toks)" by (cases st) auto
  show ?case
    unfolding st using assms Cons.IH by (simp add: Let_def)
qed

lemma paragraph_loop_cong:
  assumes "\<forall>s. countTokens enc1 s = countTokens enc2 s"
  shows "paragraph_loop enc1 M ov ps st = paragraph_loop enc2 M ov ps st"
proof (induction ps arbitrary: st)
  case Nil
  show ?case by simp
next
  case (Cons p ps)
  show ?case
    using Cons.IH by (simp add: sentence_loop_cong[OF assms] split: prod.splits)
qed

text \<open>
  C8.  Chunking is deterministic.  Two calls of a chunker with identical arguments
  give identical output: the same outcome for the token-window chunker (the same
  chunks with the same texts and boundaries, or no return in both runs), the same
  chunks with the same texts, positions and token counts for the
  sentence-accumulating chunker.  The only thing a run reads besides its
  arguments is the tokenizer, so the same holds of two runs in which the
  tokenizer answers alike: the token-window chunker is determined by the tokens
  of the text and by \<open>decode\<close>, the sentence-accumulating chunker by the token
  counts.
\<close>

theorem chunking_deterministic:
  "chunkText enc1 text maxTokens overlapTokens = chunkText enc1 text maxTokens overlapTokens \<and>
   chunkTextEnhanced enc1 text maxTokens overlapTokens =
     chunkTextEnhanced enc1 text maxTokens overlapTokens \<and>
   (encode enc1 text = encode enc2 text \<and> (\<forall>sub. decode enc1 sub = decode enc2 sub) \<longrightarrow>
      chunkText enc1 text maxTokens overlapTokens = chunkText enc2 text maxTokens overlapTokens) \<and>
   ((\<forall>s. countTokens enc1 s = countTokens enc2 s) \<longrightarrow>
      chunkTextEnhanced enc1 text maxTokens overlapTokens =
      chunkTextEnhanced enc2 text maxTokens overlapTokens)"
proof (intro conjI impI)
  assume "encode enc1 text = encode enc2 text \<and> (\<forall>sub. decode enc1 sub = decode enc2 sub)"
  then show "chunkText enc1 text maxTokens overlapTokens =
      chunkText enc2 text maxTokens overlapTokens"
    by (simp add: chunkText_def chunkText_loop_cong[of enc1 enc2])
next
  assume "\<forall>s. countTokens enc1 s = countTokens enc2 s"
  then show "chunkTextEnhanced enc1 text maxTokens overlapTokens =
      chunkTextEnhanced enc2 text maxTokens overlapTokens"
    by (simp add: chunkTextEnhanced_def paragraph_loop_cong[of enc1 enc2])
qed simp_all

theorem chunking_deterministic_witness:
  "encode byte_tokenizer ''hello world'' = encode byte_tokenizer ''hello world'' \<and>
   (\<forall>sub. decode byte_tokenizer sub = decode byte_tokenizer sub) \<and>
   chunkText byte_tokenizer ''hello world'' 4 1 =
     Some [\<lparr>w_text = ''hell'', w_start = 0, w_end = 4\<rparr>,
           \<lparr>w_text = ''lo w'', w_start = 3, w_end = 7\<rparr>,
           \<lparr>w_text = ''worl'', w_start = 6, w_end = 10\<rparr>,
           \<lparr>w_text = ''ld'', w_start = 9, w_end = 11\<rparr>] \<and>
   (\<forall>s. countTokens byte_tokenizer s = countTokens blind_tokenizer s) \<and>
   chunkTextEnhanced blind_tokenizer ''a.b.c.'' 2 1 =
     [\<lparr>e_text = ''a. b.'', e_start = 0, e_end = 1, e_tokens = 2\<rparr>,
      \<lparr>e_text = ''b. c.'', e_start = 1, e_end = 2, e_tokens = 5\<rparr>]"
proof -
  have c: "\<forall>s. countTokens byte_tokenizer s = countTokens blind_tokenizer s"
    by (simp add: countTokens_def byte_tokenizer_def blind_tokenizer_def)
  from chunking_deterministic [of byte_tokenizer "''hello world''" 4 1 byte_tokenizer]
    chunking_deterministic [of byte_tokenizer "''a.b.c.''" 2 1 blind_tokenizer] c
  show ?thesis
    by (simp add: chunkText_example chunkTextEnhanced_example)
qed

section \<open>Finite results of the arithmetic\<close>

lemma max_double_large: "10 ^ 300 \<le> max_double"
  unfolding max_double_def by simp

lemma js_fin_Num: "\<bar>x\<bar> \<le> max_double \<Longrightarrow> js_fin x = Num x"
  by (auto simp: js_fin_def)

lemma js_fin_moderate: "\<bar>x\<bar> \<le> 10 ^ 300 \<Longrightarrow> js_fin x = Num x"
  using max_double_large by (intro js_fin_Num) linarith

lemma js_fin_between:
  assumes "l \<le> x" "x \<le> u" "- (10 ^ 300) \<le> l" "u \<le> 10 ^ 300"
  shows "js_fin x = Num x"
proof -
  from assms have "\<bar>x\<bar> \<le> 10 ^ 300" by linarith
  then show ?thesis by (rule js_fin_moderate)
qed

lemma js_fin_count: "0 \<le> x \<Longrightarrow> x \<le> 2 ^ 53 + 1 \<Longrightarrow> js_fin x = Num x"
  by (erule (1) js_fin_between) simp_all


lemma js_fin_abs:
  assumes "\<bar>x\<bar> \<le> K" "K \<le> 10 ^ 300"
  shows "js_fin x = Num x"
proof -
  from assms(1) have "- K \<le> x" "x \<le> K" by (simp_all add: abs_le_iff minus_le_iff)
  moreover from assms(2) have "- (10 ^ 300) \<le> - K" by (simp only: neg_le_iff_le)
  ultimately show ?thesis using assms(2) by (rule js_fin_between)
qed

lemma js_fin_100: "\<bar>x\<bar> \<le> 10 ^ 100 \<Longrightarrow> js_fin x = Num x"
  by (erule js_fin_abs) simp

section \<open>The lexical relevance score\<close>

lemma split_runs_aux_length: "length (split_runs_aux sep r cur s) \<le> Suc (length s)"
  by (induction s arbitrary: r cur) (auto intro: le_SucI)

lemma split_runs_length: "length (split_runs sep s) \<le> Suc (length s)"
  by (simp add: split_runs_def split_runs_aux_length)

lemma split_runs_aux_nonempty: "split_runs_aux sep r cur s \<noteq> []"
  by (induction s arbitrary: r cur) auto

lemma relevance_term:
  assumes c: "0 < c" "c \<le> n" and n: "real n \<le> 2 ^ 53"
  shows "js_mul (js_div (js_nat c) (js_nat n))
           (js_log (js_add (Num 1) (js_div (js_nat n) (js_nat c)))) =
         Num ((real c / real n) * ln (1 + real n / real c))"
    and "0 \<le> (real c / real n) * ln (1 + real n / real c)"
    and "(real c / real n) * ln (1 + real n / real c) \<le> 1"
proof -
  let ?x = "real n / real c"
  from c have n0: "0 < n" by simp
  have x0: "0 < ?x" using c n0 by simp
  have xn: "?x \<le> real n"
    using c by (simp add: field_simps)
  have r1: "real c / real n \<le> 1" and r0: "0 < real c / real n" using c n0 by simp_all
  have l0: "0 \<le> ln (1 + ?x)" using x0 by simp
  have lx: "ln (1 + ?x) \<le> ?x" using x0 by (intro ln_add_one_self_le_self) simp
  have f1: "js_fin (real c / real n) = Num (real c / real n)"
    using r0 r1 by (intro js_fin_count) simp_all
  have f2: "js_fin ?x = Num ?x"
    using x0 xn n by (intro js_fin_count) simp_all
  have f3: "js_fin (1 + ?x) = Num (1 + ?x)"
    using x0 xn n by (intro js_fin_count) simp_all
  have f4: "js_fin (ln (1 + ?x)) = Num (ln (1 + ?x))"
    using l0 lx xn n by (intro js_fin_count) simp_all
  show le1: "(real c / real n) * ln (1 + ?x) \<le> 1"
  proof -
    have "(real c / real n) * ln (1 + ?x) \<le> (real c / real n) * ?x"
      using lx r0 by (intro mult_left_mono) simp_all
    also have "\<dots> = 1" using c n0 by simp
    finally show ?thesis .
  qed
  show ge0: "0 \<le> (real c / real n) * ln (1 + ?x)"
    using l0 r0 by simp
  have f5: "js_fin ((real c / real n) * ln (1 + ?x)) = Num ((real c / real n) * ln (1 + ?x))"
    using ge0 le1 by (intro js_fin_count) simp_all
  have nz: "real n \<noteq> 0" "real c \<noteq> 0" "\<not> 1 + ?x < 0" "1 + ?x \<noteq> 0"
  proof -
    show "real n \<noteq> 0" "real c \<noteq> 0" using c n0 by simp_all
    show "\<not> 1 + ?x < 0" "1 + ?x \<noteq> 0" using x0 by linarith+
  qed
  show "js_mul (js_div (js_nat c) (js_nat n))
           (js_log (js_add (Num 1) (js_div (js_nat n) (js_nat c)))) =
         Num ((real c / real n) * ln (1 + ?x))"
    unfolding js_nat_def
    by (simp only: js_div.simps js_add.simps js_mul.simps js_log.simps nz if_False f1 f2 f3 f4 f5)
qed

lemma relevance_loop_Num:
  assumes tw: "real (length tw) \<le> 2 ^ 53"
    and acc: "0 \<le> acc" "acc + real (length ws) \<le> 2 ^ 53"
  shows "\<exists>r. relevance_loop ws tw (Num acc) = Num r \<and>
             r = acc + (\<Sum>token \<leftarrow> filter (\<lambda>t. 3 \<le> length t) ws.
                    if length (filter (\<lambda>w. js_includes w token) tw) = 0 then 0
                    else (real (length (filter (\<lambda>w. js_includes w token) tw)) / real (length tw))
                           * ln (1 + real (length tw)
                                   / real (length (filter (\<lambda>w. js_includes w token) tw)))) \<and>
             0 \<le> r \<and> r \<le> 2 ^ 53"
  using acc
proof (induction ws arbitrary: acc)
  case Nil
  then show ?case by simp
next
  case (Cons word ws)
  let ?c = "length (filter (\<lambda>w. js_includes w word) tw)"
  let ?n = "length tw"
  let ?t = "(real ?c / real ?n) * ln (1 + real ?n / real ?c)"
  from Cons.prems have rest: "acc + real (length ws) \<le> 2 ^ 53" "acc + 1 + real (length ws) \<le> 2 ^ 53"
    by simp_all
  show ?case
  proof (cases "length word < 3 \<or> ?c = 0")
    case True
    with Cons.IH[OF Cons.prems(1) rest(1)] show ?thesis by (auto simp: Let_def)
  next
    case False
    then have c: "0 < ?c" "?c \<le> ?n" by simp_all
    note tm = relevance_term[OF c tw]
    have "js_fin (acc + ?t) = Num (acc + ?t)"
      using tm(2,3) Cons.prems by (intro js_fin_count) simp_all
    then have step: "js_add (Num acc) (Num ?t) = Num (acc + ?t)"
      by (simp only: js_add.simps)
    have a1: "0 \<le> acc + ?t" using tm(2) Cons.prems(1) by simp
    have a2: "acc + ?t + real (length ws) \<le> 2 ^ 53" using tm(3) rest(2) by simp
    have unfold: "relevance_loop (word # ws) tw (Num acc) = relevance_loop ws tw (Num (acc + ?t))"
      using False by (simp only: relevance_loop.simps Let_def tm(1) step) simp
    have sum: "(\<Sum>token \<leftarrow> filter (\<lambda>t. 3 \<le> length t) (word # ws).
                    if length (filter (\<lambda>w. js_includes w token) tw) = 0 then 0
                    else (real (length (filter (\<lambda>w. js_includes w token) tw)) / real (length tw))
                           * ln (1 + real (length tw)
                                   / real (length (filter (\<lambda>w. js_includes w token) tw))))
               = ?t + (\<Sum>token \<leftarrow> filter (\<lambda>t. 3 \<le> length t) ws.
                    if length (filter (\<lambda>w. js_includes w token) tw) = 0 then 0
                    else (real (length (filter (\<lambda>w. js_includes w token) tw)) / real (length tw))
                           * ln (1 + real (length tw)
                                   / real (length (filter (\<lambda>w. js_includes w token) tw))))"
      using False by simp
    from Cons.IH[OF a1 a2] show ?thesis
      unfolding unfold sum by (simp only: add.assoc)
  qed
qed

lemma calculateTextRelevance_Num:
  assumes "js_string query" "js_string text"
  shows "calculateTextRelevance query text = Num (textScore_spec query text)"
    and "0 \<le> textScore_spec query text" and "textScore_spec query text \<le> 2 ^ 53"
proof -
  let ?ws = "split_runs is_space (toLowerCase query)"
  let ?tw = "split_runs is_space (toLowerCase text)"
  have "length ?tw \<le> Suc (length text)" "length ?ws \<le> Suc (length query)"
    using split_runs_length[of is_space "toLowerCase text"]
      split_runs_length[of is_space "toLowerCase query"]
    by (simp_all add: toLowerCase_def)
  with assms have "length ?tw \<le> 2 ^ 53" "length ?ws \<le> 2 ^ 53"
    unfolding js_string_def by linarith+
  then have "real (length ?tw) \<le> real (2 ^ 53)" "real (length ?ws) \<le> real (2 ^ 53)"
    by (simp_all only: of_nat_le_iff)
  then have b: "real (length ?tw) \<le> 2 ^ 53" "0 + real (length ?ws) \<le> 2 ^ 53"
    by simp_all
  from relevance_loop_Num[OF b(1) order_refl b(2)]
  have "relevance_loop ?ws ?tw (Num 0) = Num (textScore_spec query text) \<and>
        0 \<le> textScore_spec query text \<and> textScore_spec query text \<le> 2 ^ 53"
    unfolding textScore_spec_def matchCount_def chunkTokenCount_def by simp
  then show "calculateTextRelevance query text = Num (textScore_spec query text)"
    and "0 \<le> textScore_spec query text" and "textScore_spec query text \<le> 2 ^ 53"
    by (simp_all add: calculateTextRelevance_def)
qed

text \<open>Without the guard a token with no match would add \<open>NaN\<close>: \<open>0 / n\<close> is \<open>0\<close>, \<open>n / 0\<close>
  is \<open>Infinity\<close>, and \<open>0 * Math.log(Infinity)\<close> is \<open>NaN\<close>.\<close>

lemma zero_match_term:
  "0 < n \<Longrightarrow>
   js_mul (js_div (js_nat 0) (js_nat n)) (js_log (js_add (Num 1) (js_div (js_nat n) (js_nat 0))))
     = NaN"
  by (simp add: js_nat_def js_fin_def max_double_def)


lemma starts_with_iff: "starts_with w x \<longleftrightarrow> (\<exists>s. w = x @ s)"
  by (induction w x rule: starts_with.induct) auto

lemma js_includes_iff: "js_includes w x \<longleftrightarrow> (\<exists>p s. w = p @ x @ s)"
proof (induction w)
  case Nil
  then show ?case by auto
next
  case (Cons c cs)
  have "(\<exists>p s. c # cs = p @ x @ s) \<longleftrightarrow> (\<exists>s. c # cs = x @ s) \<or> (\<exists>p s. cs = p @ x @ s)"
  proof
    assume "\<exists>p s. c # cs = p @ x @ s"
    then obtain p s where e: "c # cs = p @ x @ s" by blast
    show "(\<exists>s. c # cs = x @ s) \<or> (\<exists>p s. cs = p @ x @ s)"
    proof (cases p)
      case Nil
      with e show ?thesis by auto
    next
      case (Cons a p')
      with e have "cs = p' @ x @ s" by simp
      then show ?thesis by blast
    qed
  next
    assume "(\<exists>s. c # cs = x @ s) \<or> (\<exists>p s. cs = p @ x @ s)"
    then show "\<exists>p s. c # cs = p @ x @ s"
    proof
      assume "\<exists>s. c # cs = x @ s"
      then obtain s where "c # cs = [] @ x @ s" by auto
      then show ?thesis by blast
    next
      assume "\<exists>p s. cs = p @ x @ s"
      then obtain p s where "c # cs = (c # p) @ x @ s" by auto
      then show ?thesis by blast
    qed
  qed
  with Cons show ?case by (simp add: starts_with_iff)
qed

text \<open>
  C6.  For JavaScript strings, the lexical score of a chunk text for a query is
  the number that is the sum, over the lowercase whitespace-split query tokens of
  length at least 3, of
  \<open>(matchCount / chunkTokenCount) * ln (1 + chunkTokenCount / matchCount)\<close>, where
  \<open>matchCount\<close> counts the lowercase whitespace-split tokens of the chunk text that
  contain the query token as a substring; a token with no match adds 0.  The
  result is a finite number, never \<open>NaN\<close> or an infinity: no division by zero
  occurs, because \<open>chunkTokenCount\<close> is never 0 (splitting gives at least one
  piece) and the division by \<open>matchCount\<close> is made only when it is positive
  (\<open>zero_match_term\<close> is what the division would give otherwise).
\<close>

theorem calculateTextRelevance_formula:
  assumes "js_string query" "js_string text"
  shows "calculateTextRelevance query text = Num (textScore_spec query text) \<and>
         0 < chunkTokenCount text \<and>
         matchCount text token \<le> chunkTokenCount text \<and>
         matchCount text token =
           length (filter (\<lambda>w. \<exists>p s. w = p @ token @ s)
                     (split_runs is_space (toLowerCase text)))"
proof (intro conjI)
  show "calculateTextRelevance query text = Num (textScore_spec query text)"
    by (rule calculateTextRelevance_Num(1)[OF assms])
  show "0 < chunkTokenCount text"
    by (simp add: chunkTokenCount_def split_runs_def split_runs_aux_nonempty)
  show "matchCount text token \<le> chunkTokenCount text"
    by (simp add: matchCount_def chunkTokenCount_def)
  show "matchCount text token =
           length (filter (\<lambda>w. \<exists>p s. w = p @ token @ s)
                     (split_runs is_space (toLowerCase text)))"
    by (simp add: matchCount_def js_includes_iff)
qed

lemma words_examples:
  "split_runs is_space (toLowerCase ''Pricing zzz'') = [''pricing'', ''zzz'']"
  "split_runs is_space (toLowerCase ''pricing plan'') = [''pricing'', ''plan'']"
  by code_simp+

lemma matches_examples:
  "matchCount ''pricing plan'' ''pricing'' = 1"
  "matchCount ''pricing plan'' ''zzz'' = 0"
  "chunkTokenCount ''pricing plan'' = 2"
  by code_simp+

lemma textScore_spec_example: "textScore_spec ''Pricing zzz'' ''pricing plan'' = ln 3 / 2"
  by (simp add: textScore_spec_def words_examples matches_examples)

theorem calculateTextRelevance_formula_witness:
  "js_string ''Pricing zzz'' \<and> js_string ''pricing plan'' \<and>
   calculateTextRelevance ''Pricing zzz'' ''pricing plan'' = Num (ln 3 / 2) \<and>
   0 < chunkTokenCount ''pricing plan'' \<and>
   matchCount ''pricing plan'' ''zzz'' \<le> chunkTokenCount ''pricing plan'' \<and>
   matchCount ''pricing plan'' ''zzz'' = 0"
proof -
  have q: "js_string ''Pricing zzz''" and t: "js_string ''pricing plan''"
    by (simp_all add: js_string_def)
  from calculateTextRelevance_formula[OF q t, of "''zzz''"] q t show ?thesis
    by (simp add: textScore_spec_example matches_examples)
qed

section \<open>Cosine similarity on vectors of moderate magnitude\<close>

lemma sq_prefix_le:
  fixes v :: "real list"
  assumes "m \<le> m'"
  shows "(\<Sum>j<m. v ! j * v ! j) \<le> (\<Sum>j<m'. v ! j * v ! j)"
  using assms by (intro sum_mono2) auto

lemma sq_prefix_nonneg:
  fixes v :: "real list"
  shows "0 \<le> (\<Sum>j<m. v ! j * v ! j)"
  by (intro sum_nonneg) simp

lemma sq_member_le:
  fixes v :: "real list"
  assumes "i < m"
  shows "v ! i * v ! i \<le> (\<Sum>j<m. v ! j * v ! j)"
  using assms by (intro member_le_sum) auto

lemma product_le_squares:
  fixes x y :: real
  shows "\<bar>x * y\<bar> \<le> (x * x + y * y) / 2"
proof -
  have "0 \<le> (\<bar>x\<bar> - \<bar>y\<bar>) * (\<bar>x\<bar> - \<bar>y\<bar>)" by simp
  also have "\<dots> = x * x + y * y - 2 * \<bar>x * y\<bar>"
    by (simp add: algebra_simps abs_mult)
  finally show ?thesis by simp
qed

lemma dot_prefix_bound:
  fixes a b :: "real list"
  shows "\<bar>\<Sum>j<m. a ! j * b ! j\<bar> \<le> ((\<Sum>j<m. a ! j * a ! j) + (\<Sum>j<m. b ! j * b ! j)) / 2"
proof -
  have "\<bar>\<Sum>j<m. a ! j * b ! j\<bar> \<le> (\<Sum>j<m. \<bar>a ! j * b ! j\<bar>)" by (rule sum_abs)
  also have "\<dots> \<le> (\<Sum>j<m. (a ! j * a ! j + b ! j * b ! j) / 2)"
    by (intro sum_mono product_le_squares)
  also have "\<dots> = ((\<Sum>j<m. a ! j * a ! j) + (\<Sum>j<m. b ! j * b ! j)) / 2"
    by (simp add: sum.distrib flip: sum_divide_distrib)
  finally show ?thesis .
qed

lemma mean_le:
  fixes x p q K :: real
  assumes "x \<le> (p + q) / 2" "p \<le> K" "q \<le> K"
  shows "x \<le> K"
proof -
  from assms(2,3) have "(p + q) / 2 \<le> K" by simp
  with assms(1) show ?thesis by simp
qed

lemma cosSim_loop_sums:
  assumes "i + n \<le> length a" "i + n \<le> length b"
    and A: "(\<Sum>j<i + n. a ! j * a ! j) \<le> 10 ^ 100"
    and B: "(\<Sum>j<i + n. b ! j * b ! j) \<le> 10 ^ 100"
  shows "cosSim_loop a b i n
           (Num (\<Sum>j<i. a ! j * b ! j), Num (\<Sum>j<i. a ! j * a ! j), Num (\<Sum>j<i. b ! j * b ! j)) =
         (Num (\<Sum>j<i + n. a ! j * b ! j), Num (\<Sum>j<i + n. a ! j * a ! j),
          Num (\<Sum>j<i + n. b ! j * b ! j))"
  using assms
proof (induction n arbitrary: i)
  case 0
  then show ?case by simp
next
  case (Suc n)
  from Suc.prems have i: "i < length a" "i < length b" by simp_all
  have Ai: "(\<Sum>j<Suc i. a ! j * a ! j) \<le> 10 ^ 100"
    using sq_prefix_le[where m = "Suc i" and m' = "i + Suc n" and v = a] Suc.prems(3) by simp
  have Bi: "(\<Sum>j<Suc i. b ! j * b ! j) \<le> 10 ^ 100"
    using sq_prefix_le[where m = "Suc i" and m' = "i + Suc n" and v = b] Suc.prems(4) by simp
  have a2: "a ! i * a ! i \<le> 10 ^ 100"
    using sq_member_le[where i = i and m = "Suc i" and v = a] Ai by simp
  have b2: "b ! i * b ! i \<le> 10 ^ 100"
    using sq_member_le[where i = i and m = "Suc i" and v = b] Bi by simp
  have ab: "\<bar>a ! i * b ! i\<bar> \<le> 10 ^ 100"
    by (rule mean_le[OF product_le_squares a2 b2])
  have D: "\<bar>\<Sum>j<Suc i. a ! j * b ! j\<bar> \<le> 10 ^ 100"
    by (rule mean_le[OF dot_prefix_bound Ai Bi])
  have f: "js_fin (a ! i * b ! i) = Num (a ! i * b ! i)"
    "js_fin (a ! i * a ! i) = Num (a ! i * a ! i)"
    "js_fin (b ! i * b ! i) = Num (b ! i * b ! i)"
    using ab a2 b2 by (intro js_fin_100; simp)+
  have g: "js_fin ((\<Sum>j<i. a ! j * b ! j) + a ! i * b ! i) = Num (\<Sum>j<Suc i. a ! j * b ! j)"
    "js_fin ((\<Sum>j<i. a ! j * a ! j) + a ! i * a ! i) = Num (\<Sum>j<Suc i. a ! j * a ! j)"
    "js_fin ((\<Sum>j<i. b ! j * b ! j) + b ! i * b ! i) = Num (\<Sum>j<Suc i. b ! j * b ! j)"
    using D Ai Bi sq_prefix_nonneg[where m = "Suc i" and v = a] sq_prefix_nonneg[where m = "Suc i" and v = b]
    by (simp_all add: js_fin_100)
  have step: "cosSim_loop a b i (Suc n)
           (Num (\<Sum>j<i. a ! j * b ! j), Num (\<Sum>j<i. a ! j * a ! j), Num (\<Sum>j<i. b ! j * b ! j)) =
         cosSim_loop a b (Suc i) n
           (Num (\<Sum>j<Suc i. a ! j * b ! j), Num (\<Sum>j<Suc i. a ! j * a ! j),
            Num (\<Sum>j<Suc i. b ! j * b ! j))"
    using i by (simp only: cosSim_loop.simps elem_def if_True js_mul.simps js_add.simps f g)
  from Suc.prems have p: "Suc i + n \<le> length a" "Suc i + n \<le> length b"
    "(\<Sum>j<Suc i + n. a ! j * a ! j) \<le> 10 ^ 100" "(\<Sum>j<Suc i + n. b ! j * b ! j) \<le> 10 ^ 100"
    by simp_all
  show ?case unfolding step using Suc.IH[OF p] by simp
qed


lemma sqrt_moderate:
  assumes "0 \<le> x" "x \<le> 10 ^ 100"
  shows "sqrt x \<le> 10 ^ 50"
  using assms by (intro real_le_lsqrt) simp_all

lemma cosSim_cosine:
  assumes len: "length a \<le> length b" and ma: "moderate a" and mb: "moderate b"
  shows "cosSim a b = Num (cosine a b)" and "\<bar>cosine a b\<bar> \<le> 10 ^ 112"
proof -
  let ?D = "\<Sum>j<length a. a ! j * b ! j"
  let ?A = "\<Sum>j<length a. a ! j * a ! j"
  let ?B = "\<Sum>j<length a. b ! j * b ! j"
  let ?den = "sqrt ?A * sqrt ?B + 1 / 10 ^ 12"
  have A: "?A \<le> 10 ^ 100" using ma by (simp add: moderate_def)
  have B: "?B \<le> 10 ^ 100"
    using sq_prefix_le[where m = "length a" and m' = "length b" and v = b] len mb
    by (simp add: moderate_def)
  have A0: "0 \<le> ?A" and B0: "0 \<le> ?B" by (rule sq_prefix_nonneg)+
  have D: "\<bar>?D\<bar> \<le> 10 ^ 100" by (rule mean_le[OF dot_prefix_bound A B])
  have loop: "cosSim_loop a b 0 (length a) (Num 0, Num 0, Num 0) = (Num ?D, Num ?A, Num ?B)"
    using cosSim_loop_sums[of 0 "length a" a b] len A B by simp
  have sA: "0 \<le> sqrt ?A" "sqrt ?A \<le> 10 ^ 50"
    using A0 sqrt_moderate[OF A0 A] by simp_all
  have sB: "0 \<le> sqrt ?B" "sqrt ?B \<le> 10 ^ 50"
    using B0 sqrt_moderate[OF B0 B] by simp_all
  have "sqrt ?A * sqrt ?B \<le> 10 ^ 50 * 10 ^ 50"
    using sA sB by (intro mult_mono) simp_all
  then have p1: "sqrt ?A * sqrt ?B \<le> 10 ^ 100" by simp
  have p0: "0 \<le> sqrt ?A * sqrt ?B" using sA sB by simp
  have den: "1 / 10 ^ 12 \<le> ?den" "?den \<le> 10 ^ 100 + 1" using p0 p1 by simp_all
  have den0: "0 < ?den" using den(1) by (rule less_le_trans[rotated]) simp
  have "\<bar>?D / ?den\<bar> = \<bar>?D\<bar> / ?den" using den0 by simp
  also have "\<dots> \<le> \<bar>?D\<bar> / (1 / 10 ^ 12)"
    using den(1) by (intro divide_left_mono) simp_all
  also have "\<dots> = \<bar>?D\<bar> * 10 ^ 12" by simp
  also have "\<dots> \<le> 10 ^ 100 * 10 ^ 12" using D by (intro mult_right_mono) simp_all
  also have "\<dots> = 10 ^ 112" by simp
  finally have q: "\<bar>?D / ?den\<bar> \<le> 10 ^ 112" .
  then show "\<bar>cosine a b\<bar> \<le> 10 ^ 112" by (simp only: cosine_def)
  have f: "js_fin (sqrt ?A) = Num (sqrt ?A)" "js_fin (sqrt ?B) = Num (sqrt ?B)"
    "js_fin (sqrt ?A * sqrt ?B) = Num (sqrt ?A * sqrt ?B)"
    "js_fin ?den = Num ?den"
    "js_fin (?D / ?den) = Num (?D / ?den)"
  proof -
    show "js_fin (sqrt ?A) = Num (sqrt ?A)"
      by (rule js_fin_between[OF sA]) simp_all
    show "js_fin (sqrt ?B) = Num (sqrt ?B)"
      by (rule js_fin_between[OF sB]) simp_all
    show "js_fin (sqrt ?A * sqrt ?B) = Num (sqrt ?A * sqrt ?B)"
      by (rule js_fin_between[OF p0 p1]) simp_all
    show "js_fin ?den = Num ?den"
      by (rule js_fin_between[OF den]) simp_all
    show "js_fin (?D / ?den) = Num (?D / ?den)"
      by (rule js_fin_abs[OF q]) simp
  qed
  have nz: "\<not> ?A < 0" "\<not> ?B < 0" "?den \<noteq> 0" using A0 B0 den0 by simp_all
  show "cosSim a b = Num (cosine a b)"
    unfolding cosSim_def loop cosine_def prod.case
    by (simp only: js_sqrt.simps js_mul.simps js_add.simps js_div.simps nz if_False f)
qed

section \<open>The hybrid search against the ranking of the specification\<close>

lemma score_all_rows:
  assumes "rows_ok S q ids idx" "js_string query" "moderate q"
  shows "\<exists>rows. score_all S query q ids idx = Inr rows \<and>
           list_all2 (row_of S query q) rows
             (zip (take (length ids) (drop idx (st_vectors S))) (List.map_filter (st_docsMap S) ids)) \<and>
           length (List.map_filter (st_docsMap S) ids) = length ids \<and>
           length (take (length ids) (drop idx (st_vectors S))) = length ids"
  using assms(1)
proof (induction ids arbitrary: idx)
  case Nil
  then show ?case by (simp add: map_filter_simps)
next
  case (Cons i ids)
  from Cons.prems obtain v e where
    v: "nth_opt (st_vectors S) idx = Some v" "length q \<le> length v" "moderate v" and
    e: "st_docsMap S i = Some e" "js_string (en_text e)" and
    rest: "rows_ok S q ids (Suc idx)"
    by (auto split: option.splits)
  from v(1) have idx: "idx < length (st_vectors S)" and vv: "v = st_vectors S ! idx"
    by (auto simp: nth_opt_def split: if_splits)
  from Cons.IH[OF rest] obtain rows where
    rows: "score_all S query q ids (Suc idx) = Inr rows"
      "list_all2 (row_of S query q) rows
         (zip (take (length ids) (drop (Suc idx) (st_vectors S))) (List.map_filter (st_docsMap S) ids))"
      "length (List.map_filter (st_docsMap S) ids) = length ids"
      "length (take (length ids) (drop (Suc idx) (st_vectors S))) = length ids"
    by blast
  have dr: "drop idx (st_vectors S) = v # drop (Suc idx) (st_vectors S)"
    using idx vv by (simp add: Cons_nth_drop_Suc)
  let ?row = "\<lparr>s_id = i, s_idx = idx, vectorScore = Num (cosine q v),
               textScore = Num (textScore_spec query (en_text e))\<rparr>"
  have one: "score_one S query q i idx = Inr ?row"
    using v e cosSim_cosine(1)[OF v(2) assms(3) v(3)]
      calculateTextRelevance_Num(1)[OF assms(2) e(2)]
    by (simp add: score_one_def)
  have r: "row_of S query q ?row (v, e)"
    using v e by (simp add: row_of_def)
  show ?case
    using rows r by (simp add: one dr map_filter_simps e(1))
qed

lemma foldl_js_min2_Num: "foldl js_min2 (Num a) (map Num xs) = Num (foldl min a xs)"
  by (induction xs arbitrary: a) auto

lemma foldl_js_max2_Num: "foldl js_max2 (Num a) (map Num xs) = Num (foldl max a xs)"
  by (induction xs arbitrary: a) auto

lemma foldl_min_Min: "foldl min a xs = Min (set (a # xs))"
proof -
  have "foldl min a xs = fold min xs a"
    by (simp add: foldl_conv_fold min.commute)
  then show ?thesis by (simp only: Min.set_eq_fold)
qed

lemma foldl_max_Max: "foldl max a xs = Max (set (a # xs))"
proof -
  have "foldl max a xs = fold max xs a"
    by (simp add: foldl_conv_fold max.commute)
  then show ?thesis by (simp only: Max.set_eq_fold)
qed

lemma Math_min_Num: "xs \<noteq> [] \<Longrightarrow> Math_min (map Num xs) = Num (Min (set xs))"
  by (cases xs) (simp_all only: Math_min_def list.map foldl.simps js_min2.simps
      foldl_js_min2_Num foldl_min_Min, simp)

lemma Math_max_Num: "xs \<noteq> [] \<Longrightarrow> Math_max (map Num xs) = Num (Max (set xs))"
  by (cases xs) (simp_all only: Math_max_def list.map foldl.simps js_max2.simps
      foldl_js_max2_Num foldl_max_Max, simp)

lemma normalise_js:
  assumes x: "x \<in> set xs" and b: "\<forall>y\<in>set xs. \<bar>y\<bar> \<le> 10 ^ 112"
  shows "js_div (js_sub (Num x) (Num (Min (set xs))))
           (js_add (js_sub (Num (Max (set xs))) (Num (Min (set xs)))) (Num (1 / 10 ^ 9)))
         = Num (normalise xs x)"
    and "0 \<le> normalise xs x" and "normalise xs x \<le> 1"
proof -
  let ?mn = "Min (set xs)" and ?mx = "Max (set xs)"
  let ?den = "?mx - ?mn + 1 / 10 ^ 9"
  have mn: "?mn \<le> x" and mx: "x \<le> ?mx" using x by simp_all
  have "?mn \<in> set xs" "?mx \<in> set xs" using x by (auto intro: Min_in Max_in)
  with b x have bx: "\<bar>x\<bar> \<le> 10 ^ 112" and bmn: "\<bar>?mn\<bar> \<le> 10 ^ 112" and bmx: "\<bar>?mx\<bar> \<le> 10 ^ 112"
    by blast+
  have two: "\<bar>u - w\<bar> \<le> 2 * 10 ^ 112" if "\<bar>u\<bar> \<le> 10 ^ 112" "\<bar>w\<bar> \<le> 10 ^ 112" for u w :: real
  proof -
    have "\<bar>u - w\<bar> \<le> \<bar>u\<bar> + \<bar>w\<bar>" by (rule abs_triangle_ineq4)
    also have "\<dots> \<le> 10 ^ 112 + 10 ^ 112" using that by (rule add_mono)
    finally show ?thesis by simp
  qed
  have n0: "0 \<le> x - ?mn" using mn by simp
  have d0: "0 \<le> ?mx - ?mn" using mn mx by simp
  have nd: "x - ?mn \<le> ?mx - ?mn" using mx by simp
  have den0: "0 < ?den" using d0 by (simp add: add_nonneg_pos)
  have f1: "js_fin (x + - ?mn) = Num (x - ?mn)"
    using js_fin_abs[OF two[OF bx bmn]] by simp
  have f2: "js_fin (?mx + - ?mn) = Num (?mx - ?mn)"
    using js_fin_abs[OF two[OF bmx bmn]] by simp
  have "\<bar>?den\<bar> \<le> 2 * 10 ^ 112 + 1"
  proof -
    have "\<bar>?den\<bar> \<le> \<bar>?mx - ?mn\<bar> + \<bar>1 / 10 ^ 9\<bar>" by (rule abs_triangle_ineq)
    also have "\<dots> \<le> 2 * 10 ^ 112 + 1" using two[OF bmx bmn] by (intro add_mono) simp_all
    finally show ?thesis .
  qed
  then have f3: "js_fin ?den = Num ?den" by (rule js_fin_abs) simp
  show ge: "0 \<le> normalise xs x"
    unfolding normalise_def using n0 den0 by simp
  show le: "normalise xs x \<le> 1"
    unfolding normalise_def using nd den0 by (simp add: field_simps)
  have f4: "js_fin ((x - ?mn) / ?den) = Num ((x - ?mn) / ?den)"
    using ge le unfolding normalise_def by (rule js_fin_count[OF _ order_trans]) simp
  have nz: "?den \<noteq> 0" using den0 by simp
  show "js_div (js_sub (Num x) (Num ?mn)) (js_add (js_sub (Num ?mx) (Num ?mn)) (Num (1 / 10 ^ 9)))
         = Num (normalise xs x)"
    unfolding normalise_def js_sub_def
    by (simp only: js_neg.simps js_add.simps js_div.simps f1 f2 f3 f4 nz if_False)
qed

lemma blend_js:
  assumes "0 \<le> nv" "nv \<le> 1" "0 \<le> nt" "nt \<le> 1"
  shows "js_add (js_mul (Num nv) (Num (7 / 10))) (js_mul (Num nt) (Num (3 / 10)))
         = Num (7 / 10 * nv + 3 / 10 * nt)"
    and "0 \<le> 7 / 10 * nv + 3 / 10 * nt" and "7 / 10 * nv + 3 / 10 * nt \<le> 1"
proof -
  show ge: "0 \<le> 7 / 10 * nv + 3 / 10 * nt" using assms by simp
  show le: "7 / 10 * nv + 3 / 10 * nt \<le> 1" using assms by simp
  have f1: "js_fin (nv * (7 / 10)) = Num (nv * (7 / 10))"
    using assms by (intro js_fin_count) simp_all
  have f2: "js_fin (nt * (3 / 10)) = Num (nt * (3 / 10))"
    using assms by (intro js_fin_count) simp_all
  have f3: "js_fin (nv * (7 / 10) + nt * (3 / 10)) = Num (nv * (7 / 10) + nt * (3 / 10))"
    using ge le by (intro js_fin_count) (simp_all add: mult.commute)
  have e: "nv * (7 / 10) + nt * (3 / 10) = 7 / 10 * nv + 3 / 10 * nt" by simp
  show "js_add (js_mul (Num nv) (Num (7 / 10))) (js_mul (Num nt) (Num (3 / 10)))
         = Num (7 / 10 * nv + 3 / 10 * nt)"
    by (simp only: js_mul.simps js_add.simps f1 f2 f3) (simp only: e)
qed


lemma combine_spec:
  assumes r: "row_of S query q r ve"
    and vin: "cosine q (fst ve) \<in> set vs" and vb: "\<forall>y\<in>set vs. \<bar>y\<bar> \<le> 10 ^ 112"
    and tin: "textScore_spec query (en_text (snd ve)) \<in> set ts"
    and tb: "\<forall>y\<in>set ts. \<bar>y\<bar> \<le> 10 ^ 112"
  shows "\<exists>s. combine S (Num (Min (set vs))) (Num (Max (set vs)))
                 (Num (Min (set ts))) (Num (Max (set ts))) r = Inr s \<and>
             scored_of s (doc_of (snd ve),
               7 / 10 * normalise vs (cosine q (fst ve))
               + 3 / 10 * normalise ts (textScore_spec query (en_text (snd ve))))"
proof -
  note nv = normalise_js[OF vin vb]
  note nt = normalise_js[OF tin tb]
  note bl = blend_js[OF nv(2,3) nt(2,3)]
  from r have f: "vectorScore r = Num (cosine q (fst ve))"
    "textScore r = Num (textScore_spec query (en_text (snd ve)))"
    "st_docsMap S (s_id r) = Some (snd ve)"
    by (simp_all add: row_of_def)
  have "combine S (Num (Min (set vs))) (Num (Max (set vs)))
                 (Num (Min (set ts))) (Num (Max (set ts))) r =
        Inr \<lparr>sc_id = s_id r,
             sc_score = Num (7 / 10 * normalise vs (cosine q (fst ve))
               + 3 / 10 * normalise ts (textScore_spec query (en_text (snd ve)))),
             sc_doc = \<lparr>pageContent = en_text (snd ve), metadata = en_metadata (snd ve)\<rparr>\<rparr>"
    unfolding combine_def Let_def f nv(1) nt(1) bl(1) by simp
  then show ?thesis using bl(2,3) by (simp add: scored_of_def doc_of_def)
qed

lemma combine_all_spec:
  assumes "list_all2 (row_of S query q) rows ves"
    and "\<forall>ve\<in>set ves. cosine q (fst ve) \<in> set vs \<and>
                        textScore_spec query (en_text (snd ve)) \<in> set ts"
    and vb: "\<forall>y\<in>set vs. \<bar>y\<bar> \<le> 10 ^ 112" and tb: "\<forall>y\<in>set ts. \<bar>y\<bar> \<le> 10 ^ 112"
  shows "\<exists>scored. combine_all S (Num (Min (set vs))) (Num (Max (set vs)))
                 (Num (Min (set ts))) (Num (Max (set ts))) rows = Inr scored \<and>
           list_all2 scored_of scored
             (map (\<lambda>ve. (doc_of (snd ve),
                     7 / 10 * normalise vs (cosine q (fst ve))
                     + 3 / 10 * normalise ts (textScore_spec query (en_text (snd ve))))) ves)"
  using assms(1,2)
proof (induction rows ves rule: list_all2_induct)
  case Nil
  then show ?case by simp
next
  case (Cons r rows ve ves)
  from Cons.prems have here: "cosine q (fst ve) \<in> set vs"
    "textScore_spec query (en_text (snd ve)) \<in> set ts"
    and rest: "\<forall>ve\<in>set ves. cosine q (fst ve) \<in> set vs \<and>
                        textScore_spec query (en_text (snd ve)) \<in> set ts"
    by simp_all
  from combine_spec[OF Cons.hyps(1) here(1) vb here(2) tb] obtain s where
    s: "combine S (Num (Min (set vs))) (Num (Max (set vs)))
                 (Num (Min (set ts))) (Num (Max (set ts))) r = Inr s"
       "scored_of s (doc_of (snd ve),
               7 / 10 * normalise vs (cosine q (fst ve))
               + 3 / 10 * normalise ts (textScore_spec query (en_text (snd ve))))"
    by blast
  from Cons.IH[OF rest] obtain scored where
    sc: "combine_all S (Num (Min (set vs))) (Num (Max (set vs)))
                 (Num (Min (set ts))) (Num (Max (set ts))) rows = Inr scored"
        "list_all2 scored_of scored
             (map (\<lambda>ve. (doc_of (snd ve),
                     7 / 10 * normalise vs (cosine q (fst ve))
                     + 3 / 10 * normalise ts (textScore_spec query (en_text (snd ve))))) ves)"
    by blast
  from s sc show ?case by simp
qed

lemma compare_scored:
  assumes "scored_of a c" "scored_of b d"
  shows "js_positive (compareFn a b) \<longleftrightarrow> \<not> (- snd c \<le> - snd d)"
proof -
  from assms have "\<bar>snd d - snd c\<bar> \<le> 1" by (simp add: scored_of_def abs_le_iff)
  then have "js_fin (snd d + - snd c) = Num (snd d - snd c)"
    using js_fin_abs[of "snd d - snd c" 1] by simp
  with assms show ?thesis
    by (simp add: compareFn_def js_sub_def scored_of_def) linarith
qed

lemma sort_insert_spec:
  assumes "list_all2 scored_of xs cs" "scored_of a c"
  shows "list_all2 scored_of (sort_insert a xs) (insort_key (\<lambda>c. - snd c) c cs)"
  using assms
proof (induction xs cs rule: list_all2_induct)
  case Nil
  then show ?case by simp
next
  case (Cons b xs d cs)
  from compare_scored[OF Cons.prems Cons.hyps(1)] Cons show ?case by simp
qed

lemma js_sort_spec:
  assumes "list_all2 scored_of xs cs"
  shows "list_all2 scored_of (js_sort xs) (sort_key (\<lambda>c. - snd c) cs)"
  using assms
  by (induction xs cs rule: list_all2_induct) (simp_all add: sort_insert_spec)

lemma js_slice_all2:
  assumes "list_all2 P xs ys"
  shows "list_all2 P (js_slice xs s e) (js_slice ys s e)"
proof -
  from assms have "length xs = length ys" by (rule list_all2_lengthD)
  with assms show ?thesis
    by (simp add: js_slice_def Let_def list_all2_takeI list_all2_dropI)
qed

lemma distances_spec:
  assumes "list_all2 scored_of xs cs"
  shows "map (\<lambda>s. (sc_doc s, js_sub (Num 1) (sc_score s))) xs = map with_distance cs"
  using assms
proof (induction xs cs rule: list_all2_induct)
  case Nil
  then show ?case by simp
next
  case (Cons s xs c cs)
  from Cons.hyps(1) have "\<bar>1 - snd c\<bar> \<le> 1" by (simp add: scored_of_def abs_le_iff)
  then have "js_fin (1 + - snd c) = Num (1 - snd c)"
    using js_fin_abs[of "1 - snd c" 1] by simp
  with Cons show ?case
    by (simp add: scored_of_def with_distance_def js_sub_def)
qed

lemma zip_spec:
  assumes "length V = length En"
  shows "zip (map d En) (map2 f (map g V) (map h En)) =
         map (\<lambda>ve. (d (snd ve), f (g (fst ve)) (h (snd ve)))) (zip V En)"
  using assms by (induction V En rule: list_induct2) simp_all


lemma all2_map_eq:
  assumes "list_all2 (\<lambda>x y. f x = g y) xs ys"
  shows "map f xs = map g ys"
  using assms by (induction xs ys rule: list_all2_induct) simp_all

lemma all2_right:
  assumes "list_all2 P xs ys" "y \<in> set ys"
  shows "\<exists>x. P x y"
  using assms by (auto simp: list_all2_conv_all_nth in_set_conv_nth)

lemma map_zip_fst: "length V = length En \<Longrightarrow> map (\<lambda>ve. f (fst ve)) (zip V En) = map f V"
  by (induction V En rule: list_induct2) simp_all

lemma map_zip_snd: "length V = length En \<Longrightarrow> map (\<lambda>ve. f (snd ve)) (zip V En) = map f En"
  by (induction V En rule: list_induct2) simp_all

lemma candidates_zip:
  assumes "length (take (length (st_ids S)) (st_vectors S)) = length (indexed_entries S)"
  shows "candidates E S query =
     map (\<lambda>ve. (doc_of (snd ve),
             7 / 10 * normalise (vectorScores_spec E S query) (cosine (embed_text E query) (fst ve))
             + 3 / 10 * normalise (textScores_spec S query) (textScore_spec query (en_text (snd ve)))))
       (zip (take (length (st_ids S)) (st_vectors S)) (indexed_entries S))"
  unfolding candidates_def combined_scores_def vectorScores_spec_def[symmetric]
  unfolding vectorScores_spec_def[of E S query] textScores_spec_def[of S query]
  apply (subst zip_spec[OF assms])
  apply (simp only: vectorScores_spec_def textScores_spec_def)
  done

lemma search_spec:
  assumes ok: "index_ok E S query"
  shows "similaritySearchWithScore E S query k =
           Inr (map with_distance
                  (js_slice (sort_key (\<lambda>c. - snd c) (candidates E S query)) 0 k))"
    and "length (candidates E S query) = length (st_ids S)"
    and "\<forall>c\<in>set (candidates E S query). 0 \<le> snd c \<and> snd c \<le> 1"
proof -
  let ?q = "embed_text E query"
  let ?V = "take (length (st_ids S)) (st_vectors S)"
  let ?En = "indexed_entries S"
  let ?ves = "zip ?V ?En"
  let ?vs = "vectorScores_spec E S query"
  let ?ts = "textScores_spec S query"
  let ?cand = "\<lambda>ve. (doc_of (snd ve),
             7 / 10 * normalise ?vs (cosine ?q (fst ve))
             + 3 / 10 * normalise ?ts (textScore_spec query (en_text (snd ve))))"
  from ok have jq: "js_string query" and mq: "moderate ?q" and ro: "rows_ok S ?q (st_ids S) 0"
    by (simp_all add: index_ok_def)
  from score_all_rows[OF ro jq mq] obtain rows where
    rows: "score_all S query ?q (st_ids S) 0 = Inr rows" and
    rel: "list_all2 (row_of S query ?q) rows ?ves" and
    lenE: "length ?En = length (st_ids S)" and
    lenV: "length ?V = length (st_ids S)"
    by (auto simp: indexed_entries_def)
  have len: "length ?V = length ?En" using lenV lenE by simp
  have cands: "candidates E S query = map ?cand ?ves"
    by (rule candidates_zip[OF len])
  have vs: "?vs = map (\<lambda>ve. cosine ?q (fst ve)) ?ves"
    unfolding vectorScores_spec_def using map_zip_fst[OF len, of "cosine ?q"] by simp
  have ts: "?ts = map (\<lambda>ve. textScore_spec query (en_text (snd ve))) ?ves"
    unfolding textScores_spec_def
    using map_zip_snd[OF len, of "\<lambda>e. textScore_spec query (en_text e)"] by simp
  have mem: "\<forall>ve\<in>set ?ves. cosine ?q (fst ve) \<in> set ?vs \<and>
                        textScore_spec query (en_text (snd ve)) \<in> set ?ts"
    unfolding vs ts by auto
  have rowp: "row_of S query ?q r ve \<Longrightarrow>
        \<bar>cosine ?q (fst ve)\<bar> \<le> 10 ^ 112 \<and> \<bar>textScore_spec query (en_text (snd ve))\<bar> \<le> 10 ^ 112"
    for r ve
  proof -
    assume r: "row_of S query ?q r ve"
    then have a: "length ?q \<le> length (fst ve)" "moderate (fst ve)" "js_string (en_text (snd ve))"
      by (simp_all add: row_of_def)
    note t = calculateTextRelevance_Num(2,3)[OF jq a(3)]
    have "\<bar>textScore_spec query (en_text (snd ve))\<bar> \<le> 2 ^ 53" using t by simp
    also have "(2::real) ^ 53 \<le> 10 ^ 112" by simp
    finally show ?thesis using cosSim_cosine(2)[OF a(1) mq a(2)] by simp
  qed
  have vb: "\<forall>y\<in>set ?vs. \<bar>y\<bar> \<le> 10 ^ 112"
    unfolding vs using all2_right[OF rel] rowp by fastforce
  have tb: "\<forall>y\<in>set ?ts. \<bar>y\<bar> \<le> 10 ^ 112"
    unfolding ts using all2_right[OF rel] rowp by fastforce
  have mv: "map vectorScore rows = map Num ?vs"
  proof -
    from rel have "list_all2 (\<lambda>r ve. vectorScore r = Num (cosine ?q (fst ve))) rows ?ves"
      by (rule list_all2_mono) (simp add: row_of_def)
    then show ?thesis unfolding vs by (simp add: all2_map_eq)
  qed
  have mt: "map textScore rows = map Num ?ts"
  proof -
    from rel have "list_all2 (\<lambda>r ve. textScore r = Num (textScore_spec query (en_text (snd ve))))
                     rows ?ves"
      by (rule list_all2_mono) (simp add: row_of_def)
    then show ?thesis unfolding ts by (simp add: all2_map_eq)
  qed
  show l: "length (candidates E S query) = length (st_ids S)"
    unfolding cands using lenV lenE by simp
  have main: "similaritySearchWithScore E S query k =
           Inr (map with_distance
                  (js_slice (sort_key (\<lambda>c. - snd c) (candidates E S query)) 0 k)) \<and>
        (\<forall>c\<in>set (candidates E S query). 0 \<le> snd c \<and> snd c \<le> 1)"
  proof (cases "st_ids S = []")
    case True
    with l have "candidates E S query = []" by simp
    with True show ?thesis
      by (simp add: similaritySearchWithScore_def js_slice_def Let_def)
  next
    case False
    with lenV lenE have ne: "?vs \<noteq> []" "?ts \<noteq> []"
      by (auto simp: vectorScores_spec_def textScores_spec_def)
    from combine_all_spec[OF rel mem vb tb] obtain scored where
      sc: "combine_all S (Num (Min (set ?vs))) (Num (Max (set ?vs)))
                 (Num (Min (set ?ts))) (Num (Max (set ?ts))) rows = Inr scored" and
      rel2: "list_all2 scored_of scored (candidates E S query)"
      unfolding cands by blast
    have res: "map (\<lambda>s. (sc_doc s, js_sub (Num 1) (sc_score s))) (js_slice (js_sort scored) 0 k) =
          map with_distance (js_slice (sort_key (\<lambda>c. - snd c) (candidates E S query)) 0 k)"
      by (intro distances_spec js_slice_all2 js_sort_spec rel2)
    have "similaritySearchWithScore E S query k =
           Inr (map (\<lambda>s. (sc_doc s, js_sub (Num 1) (sc_score s))) (js_slice (js_sort scored) 0 k))"
      unfolding similaritySearchWithScore_def Let_def rows sum.case mv mt
        Math_min_Num[OF ne(1)] Math_max_Num[OF ne(1)] Math_min_Num[OF ne(2)] Math_max_Num[OF ne(2)] sc
      by simp
    moreover have "\<forall>c\<in>set (candidates E S query). 0 \<le> snd c \<and> snd c \<le> 1"
      using all2_right[OF rel2] by (fastforce simp: scored_of_def)
    ultimately show ?thesis by (simp only: res)
  qed
  from main show "similaritySearchWithScore E S query k =
           Inr (map with_distance
                  (js_slice (sort_key (\<lambda>c. - snd c) (candidates E S query)) 0 k))"
    and "\<forall>c\<in>set (candidates E S query). 0 \<le> snd c \<and> snd c \<le> 1"
    by simp_all
qed

section \<open>The hybrid search: length, order and content of the result\<close>

lemma js_slice_take: "0 \<le> k \<Longrightarrow> js_slice xs 0 k = take (nat k) xs"
  by (cases "nat k \<le> length xs") (simp_all add: js_slice_def rel_index_def Let_def min_def)



text \<open>
  C7.  A search over an index with zero chunks returns the empty sequence for every
  query and every \<open>k\<close>: it does not throw, although \<open>Math.min\<close> and \<open>Math.max\<close> are
  taken over empty score sets there (they give \<open>Infinity\<close> and \<open>-Infinity\<close>, which no
  round of the empty \<open>map\<close> reads).
\<close>

theorem search_empty_index:
  assumes "st_ids S = []"
  shows "similaritySearchWithScore E S query k = Inr [] \<and>
         Math_min (map vectorScore []) = PosInf \<and> Math_max (map vectorScore []) = NegInf"
  using assms
  by (simp add: similaritySearchWithScore_def js_slice_def Let_def Math_min_def Math_max_def)

theorem search_empty_index_witness:
  "st_ids store_empty = [] \<and>
   similaritySearchWithScore sample_env store_empty ''pricing strategy'' 8 = Inr []"
  using search_empty_index [of store_empty sample_env "''pricing strategy''" 8]
  by (simp add: store_empty_def)

section \<open>The hybrid search on a single-chunk index\<close>

lemma normalise_single: "normalise [x] x = 0"
  by (simp add: normalise_def)

lemma search_single:
  assumes "st_ids S = [i]" "index_ok E S query" "1 \<le> k"
  shows "\<exists>e. st_docsMap S i = Some e \<and>
           similaritySearchWithScore E S query k =
             Inr [(\<lparr>pageContent = en_text e, metadata = en_metadata e\<rparr>, Num 1)]"
proof -
  let ?q = "embed_text E query"
  from assms(1,2) obtain v e where v: "nth_opt (st_vectors S) 0 = Some v"
    and e: "st_docsMap S i = Some e"
    by (auto simp: index_ok_def split: option.splits)
  from v have tk: "take (Suc 0) (st_vectors S) = [v]"
    by (cases "st_vectors S") (auto simp: nth_opt_def split: if_splits)
  have en: "indexed_entries S = [e]"
    using assms(1) e by (simp add: indexed_entries_def map_filter_simps)
  have c: "candidates E S query = [(doc_of e, 0)]"
    using assms(1) tk en
    by (simp add: candidates_def combined_scores_def vectorScores_spec_def textScores_spec_def
        normalise_single)
  have k: "js_slice [(doc_of e, 0::real)] 0 k = [(doc_of e, 0)]"
    using assms(3) by (simp add: js_slice_take)
  have "similaritySearchWithScore E S query k = Inr [(doc_of e, Num 1)]"
    using search_spec(1)[OF assms(2), of k]
    by (simp add: c k with_distance_def)
  then have "similaritySearchWithScore E S query k =
          Inr [(\<lparr>pageContent = en_text e, metadata = en_metadata e\<rparr>, Num 1)]"
    by (simp only: doc_of_def)
  with e show ?thesis by blast
qed

text \<open>
  C2 (amended).  The search has no special case for fewer than two candidates: a
  single-chunk index goes through the same min-max normalisation and 0.7/0.3
  blending as any other.  On a single-chunk index that is \<open>index_ok\<close> for the query
  (in particular, the two vectors are of moderate magnitude, as the unit vectors
  of the embedder are), both normalised scores of the only chunk are 0, so for
  \<open>k \<ge> 1\<close> the returned distance is 1, whatever the cosine similarity of the chunk.
\<close>

theorem single_chunk_distance:
  assumes "st_ids S = [i]" "index_ok E S query" "1 \<le> k"
  shows "\<exists>e. st_docsMap S i = Some e \<and>
           similaritySearchWithScore E S query k =
             Inr [(\<lparr>pageContent = en_text e, metadata = en_metadata e\<rparr>, Num 1)]"
  using assms by (rule search_single)

section \<open>The hybrid search on the sample indexes\<close>

lemma embed_pricing: "sample_embed ''pricing'' = [1, 0]"
  by code_simp


lemma moderate_units: "moderate [1, 0]" "moderate [0, 1]"
  by (simp_all add: moderate_def lessThan_Suc numeral_2_eq_2)

lemma index_ok_one: "index_ok sample_env store_one ''pricing''"
  by (simp add: index_ok_def sample_env_def store_one_def nth_opt_def embed_pricing
      moderate_units js_string_def sample_entry_def)


lemma cosine_units:
  "cosine [1, 0] [1, 0] = 1 / (1 + 1 / 10 ^ 12)"
  "cosine [0, 1] [1, 0] = 0"
  "cosine [0, 1] [0, 1] = 1 / (1 + 1 / 10 ^ 12)"
  by (simp_all add: cosine_def lessThan_Suc numeral_2_eq_2)

lemma cosSim_10_10: "cosSim [1, 0] [1, 0] = Num (1 / (1 + 1 / 10 ^ 12))"
  using cosSim_cosine(1)[of "[1, 0]" "[1, 0]"] by (simp add: moderate_units cosine_units)






lemma search_one:
  "similaritySearchWithScore sample_env store_one ''pricing'' 8 =
     Inr [(\<lparr>pageContent = ''pricing plan'', metadata = sample_meta ''1'' ''pricing.md''\<rparr>, Num 1)]"
proof -
  have i: "st_ids store_one = [''1'']" by (simp add: store_one_def)
  have e: "st_docsMap store_one ''1'' = Some (sample_entry ''1'' ''pricing.md'' ''pricing plan'')"
    by (simp add: store_one_def)
  from search_single[OF i index_ok_one, of 8] e show ?thesis
    by (auto simp: sample_entry_def)
qed

text \<open>The single-chunk index \<open>store_one\<close> and the query \<open>pricing\<close>.\<close>

theorem single_chunk_distance_witness:
  "st_ids store_one = [''1''] \<and> index_ok sample_env store_one ''pricing'' \<and> (1::int) \<le> 8 \<and>
   similaritySearchWithScore sample_env store_one ''pricing'' 8 =
     Inr [(\<lparr>pageContent = ''pricing plan'', metadata = sample_meta ''1'' ''pricing.md''\<rparr>, Num 1)]"
proof -
  have i: "st_ids store_one = [''1'']" by (simp add: store_one_def)
  have e: "st_docsMap store_one ''1'' = Some (sample_entry ''1'' ''pricing.md'' ''pricing plan'')"
    by (simp add: store_one_def)
  from single_chunk_distance [OF i index_ok_one, of 8] e i index_ok_one
  show ?thesis by (auto simp: sample_entry_def)
qed

text \<open>
  C2 as stated fails: the only chunk of \<open>store_one\<close> has the vector of the query, its
  raw cosine similarity is \<open>1 / (1 + 1e-12)\<close>, and the search returns the distance 1,
  not 1 minus the raw cosine similarity.
\<close>

theorem single_chunk_distance_counterexample:
  "similaritySearchWithScore sample_env store_one ''pricing'' 8 =
     Inr [(\<lparr>pageContent = ''pricing plan'', metadata = sample_meta ''1'' ''pricing.md''\<rparr>, Num 1)] \<and>
   js_sub (Num 1) (cosSim (embed_text sample_env ''pricing'') [1, 0]) = Num (1 / (10 ^ 12 + 1))"
proof -
  have "embed_text sample_env ''pricing'' = [1, 0]"
    by (simp add: sample_env_def embed_pricing)
  moreover have "js_fin (1 + - (1 / (1 + 1 / 10 ^ 12))) = Num (1 / (10 ^ 12 + 1))"
    by (simp add: js_fin_def max_double_def)
  ultimately show ?thesis
    by (simp add: search_one cosSim_10_10 js_sub_def)
qed



text \<open>
  Why the magnitude of the vectors is bounded in \<open>index_ok\<close>: on components as large
  as \<open>1e200\<close> the products of \<open>cosSim\<close> overflow to \<open>Infinity\<close>, and the quotient
  \<open>Infinity / Infinity\<close> is \<open>NaN\<close>.
\<close>

lemma cosSim_overflow: "cosSim [10 ^ 200] [10 ^ 200] = NaN"
  by (simp add: cosSim_def elem_def js_fin_def max_double_def)

section \<open>Indexes written by saveVectorStore\<close>

lemma build_docsMap_keeps:
  "m k \<noteq> None \<Longrightarrow> build_docsMap ds vs m k \<noteq> None"
  by (induction ds vs m rule: build_docsMap.induct) auto

lemma build_docsMap_has:
  assumes "length vs = length ds" "d \<in> set ds"
  shows "build_docsMap ds vs m (m_id (metadata d)) \<noteq> None"
  using assms
proof (induction ds vs m rule: build_docsMap.induct)
  case (1 d' ds v vs m)
  show ?case
  proof (cases "d = d'")
    case True
    then show ?thesis by (simp add: build_docsMap_keeps)
  next
    case False
    with "1.prems" have "length vs = length ds" "d \<in> set ds" by simp_all
    from "1.IH"[OF this] show ?thesis by (simp add: fun_upd_def)
  qed
qed simp_all

lemma build_docsMap_text:
  assumes "build_docsMap ds vs m k = Some e"
  shows "m k = Some e \<or> (\<exists>d\<in>set ds. en_text e = pageContent d)"
  using assms
proof (induction ds vs m rule: build_docsMap.induct)
  case (1 d ds v vs m)
  from "1.IH"[OF "1.prems"[simplified]] show ?case
    by (auto split: if_splits)
qed simp_all

lemma rows_ok_from:
  assumes "\<And>j. j < length is \<Longrightarrow>
             (\<exists>v. nth_opt (st_vectors S) (idx + j) = Some v \<and> length q \<le> length v \<and> moderate v) \<and>
             (\<exists>e. st_docsMap S (is ! j) = Some e \<and> js_string (en_text e))"
  shows "rows_ok S q is idx"
  using assms
proof (induction "is" arbitrary: idx)
  case Nil
  show ?case by simp
next
  case (Cons i "is")
  from Cons.prems[of 0] obtain v e where
    h: "nth_opt (st_vectors S) idx = Some v" "length q \<le> length v" "moderate v"
       "st_docsMap S i = Some e" "js_string (en_text e)"
    by auto
  have "rows_ok S q is (Suc idx)"
  proof (rule Cons.IH)
    fix j assume "j < length is"
    then have "Suc j < length (i # is)" by simp
    from Cons.prems[OF this]
    show "(\<exists>v. nth_opt (st_vectors S) (Suc idx + j) = Some v \<and> length q \<le> length v \<and> moderate v) \<and>
             (\<exists>e. st_docsMap S (is ! j) = Some e \<and> js_string (en_text e))" by simp
  qed
  with h show ?case by simp
qed

text \<open>Every index that \<open>saveVectorStore\<close> writes with an embedding model of a fixed
  dimension and of vectors of moderate magnitude, from chunk texts that are
  JavaScript strings, is \<open>index_ok\<close> for every query that is a JavaScript string.\<close>

lemma saveVectorStore_index_ok:
  assumes dimension: "\<And>t. length (embed_text E t) = dimension"
    and magnitude: "\<And>t. moderate (embed_text E t)"
    and query: "js_string query"
    and texts: "\<And>d. d \<in> set (process_docs E clock docs 0) \<Longrightarrow> js_string (pageContent d)"
  shows "index_ok E (saveVectorStore E clock docs) query"
proof -
  let ?pd = "process_docs E clock docs 0"
  let ?S = "saveVectorStore E clock docs"
  have ids: "st_ids ?S = map (\<lambda>d. m_id (metadata d)) ?pd"
    and vs: "st_vectors ?S = map (\<lambda>d. embed_text E (pageContent d)) ?pd"
    and dm: "st_docsMap ?S = build_docsMap ?pd (map (\<lambda>d. embed_text E (pageContent d)) ?pd) Map.empty"
    by (simp_all add: saveVectorStore_def Let_def embed_def comp_def)
  have "rows_ok ?S (embed_text E query) (st_ids ?S) 0"
  proof (rule rows_ok_from)
    fix j assume "j < length (st_ids ?S)"
    then have j: "j < length ?pd" by (simp add: ids)
    have "nth_opt (st_vectors ?S) (0 + j) = Some (embed_text E (pageContent (?pd ! j)))"
      using j by (simp add: vs nth_opt_def)
    moreover have "length (embed_text E query) \<le> length (embed_text E (pageContent (?pd ! j)))"
      by (simp add: dimension)
    moreover have "st_docsMap ?S (st_ids ?S ! j) \<noteq> None"
      using j by (simp add: ids dm build_docsMap_has)
    then obtain e where e: "st_docsMap ?S (st_ids ?S ! j) = Some e" by blast
    from build_docsMap_text[OF e[unfolded dm]] obtain d where "d \<in> set ?pd" "en_text e = pageContent d"
      by auto
    with texts have "js_string (en_text e)" by simp
    ultimately show "(\<exists>v. nth_opt (st_vectors ?S) (0 + j) = Some v \<and>
              length (embed_text E query) \<le> length v \<and> moderate v) \<and>
             (\<exists>e. st_docsMap ?S (st_ids ?S ! j) = Some e \<and> js_string (en_text e))"
      using e magnitude by blast
  qed
  with query magnitude show ?thesis by (simp add: index_ok_def)
qed

section \<open>The checksum diff\<close>

lemma map_fst_add_meta:
  "map fst (add_meta ex m) =
     (if m_source m \<in> set (map fst ex) then map fst ex else map fst ex @ [m_source m])"
  by (auto simp: add_meta_def Let_def case_prod_beta comp_def intro!: map_idI)

lemma map_of_relabel:
  "map_of (map (\<lambda>(s, cs). if s = k then (s, g cs) else (s, cs)) ex) f =
     (if f = k then map_option g (map_of ex f) else map_of ex f)"
  by (induction ex) auto

lemma map_of_add_meta:
  "map_of (add_meta ex m) f =
     (if f = m_source m
      then Some ((case map_of ex f of None \<Rightarrow> [] | Some cs \<Rightarrow> cs) @ [m_checksum m])
      else map_of ex f)"
proof (cases "m_source m \<in> set (map fst ex)")
  case True
  then obtain cs where cs: "map_of ex (m_source m) = Some cs"
    by (metis map_of_eq_None_iff not_Some_eq set_map)
  have "add_meta ex m =
          map (\<lambda>(s, cs). if s = m_source m then (s, cs @ [m_checksum m]) else (s, cs)) ex"
    using True by (simp add: add_meta_def)
  then show ?thesis
    using cs by (simp only: map_of_relabel) simp
next
  case False
  then have n: "map_of ex (m_source m) = None"
    by (simp add: map_of_eq_None_iff)
  have "add_meta ex m =
          map (\<lambda>(s, cs). if s = m_source m then (s, cs @ [m_checksum m]) else (s, cs))
            (ex @ [(m_source m, [])])"
    using False by (simp add: add_meta_def)
  then have "map_of (add_meta ex m) f =
          (if f = m_source m then map_option (\<lambda>cs. cs @ [m_checksum m])
                                   (map_of (ex @ [(m_source m, [])]) f)
           else map_of (ex @ [(m_source m, [])]) f)"
    by (simp only: map_of_relabel)
  also have "map_of (ex @ [(m_source m, [])]) f =
          (if f = m_source m then Some [] else map_of ex f)"
    using n by (auto simp: map_add_def split: option.splits)
  finally show ?thesis using n by simp
qed

lemma group_meta_snoc: "group_meta (ms @ [m]) = add_meta (group_meta ms) m"
  by (simp add: group_meta_def)

lemma group_meta_keys:
  "distinct (map fst (group_meta ms)) \<and> set (map fst (group_meta ms)) = m_source ` set ms"
proof (induction ms rule: rev_induct)
  case Nil
  show ?case by (simp add: group_meta_def)
next
  case (snoc m ms)
  then show ?case
    by (auto simp: group_meta_snoc map_fst_add_meta)
qed

lemma group_meta_lookup:
  "map_of (group_meta ms) f =
     (if f \<in> m_source ` set ms then Some (map m_checksum (filter (\<lambda>m. m_source m = f) ms))
      else None)"
proof (induction ms rule: rev_induct)
  case Nil
  show ?case by (simp add: group_meta_def)
next
  case (snoc m ms)
  show ?case
  proof (cases "f = m_source m")
    case False
    with snoc show ?thesis
      by (simp add: group_meta_snoc map_of_add_meta)
  next
    case True
    show ?thesis
    proof (cases "f \<in> m_source ` set ms")
      case True
      with snoc \<open>f = m_source m\<close> show ?thesis
        by (simp add: group_meta_snoc map_of_add_meta)
    next
      case False
      then have "filter (\<lambda>m. m_source m = f) ms = []"
        by (auto simp: filter_empty_conv)
      with snoc False \<open>f = m_source m\<close> show ?thesis
        by (simp add: group_meta_snoc map_of_add_meta)
    qed
  qed
qed

lemma classify_fields:
  "unchanged (foldl (classify E ex) st files) =
     unchanged st @ map fst (filter (is_unchanged E ex) files) \<and>
   modified (foldl (classify E ex) st files) =
     modified st @ map fst (filter (is_modified E ex) files) \<and>
   new (foldl (classify E ex) st files) =
     new st @ map fst (filter (is_new E ex) files) \<and>
   deleted (foldl (classify E ex) st files) = deleted st"
proof (induction files arbitrary: st)
  case Nil
  show ?case by simp
next
  case (Cons e files)
  obtain f fl where e: "e = (f, fl)" by (cases e)
  show ?case
    using Cons.IH[of "classify E ex st e"]
    by (simp add: e classify_def is_unchanged_def is_modified_def is_new_def
        split: option.splits)
qed

lemma check_deleted_fields:
  "unchanged (foldl (check_deleted fs) st ex) = unchanged st \<and>
   modified (foldl (check_deleted fs) st ex) = modified st \<and>
   new (foldl (check_deleted fs) st ex) = new st \<and>
   deleted (foldl (check_deleted fs) st ex) =
     deleted st @ filter (\<lambda>f. f \<notin> set fs) (map fst ex)"
proof (induction ex arbitrary: st)
  case Nil
  show ?case by simp
next
  case (Cons e ex)
  show ?case
    using Cons.IH[of "check_deleted fs st e"]
    by (simp add: check_deleted_def)
qed


lemma distinct_map_filter_disjoint:
  assumes "distinct (map fst xs)" "\<And>x. x \<in> set xs \<Longrightarrow> \<not> (P x \<and> Q x)"
  shows "set (map fst (filter P xs)) \<inter> set (map fst (filter Q xs)) = {}"
proof (rule ccontr)
  assume "set (map fst (filter P xs)) \<inter> set (map fst (filter Q xs)) \<noteq> {}"
  then obtain a b where a: "a \<in> set xs" "P a" and b: "b \<in> set xs" "Q b" and ab: "fst a = fst b"
    by auto
  from assms(1) a(1) b(1) ab have "a = b"
    by (meson distinct_map inj_on_def)
  with a b assms(2) show False by blast
qed

text \<open>
  C4 (amended).  For every set of existing records and every directory listing
  (with distinct names), the checksum diff returns four lists that are pairwise
  disjoint and without repetition, so each file name is classified at most once,
  and each listed candidate (\<open>.pdf\<close>, \<open>.txt\<close>, \<open>.md\<close>) or recorded source exactly
  once: a listed candidate whose fingerprint cannot be computed (reading it
  throws) is \<open>modified\<close>, whatever the records say; a listed candidate with a
  fingerprint is \<open>new\<close> when it is absent from the records, \<open>unchanged\<close> when its
  fingerprint is among the checksums recorded for it, and \<open>modified\<close> when it is
  recorded with other checksums only; a recorded source that is not a listed
  candidate is \<open>deleted\<close>.
\<close>

theorem checkDocumentStatus_classification:
  assumes "distinct (map fst listing)"
  shows "\<exists>st. checkDocumentStatus E meta (Some listing) = Some st \<and>
     set (unchanged st) =
       {f. \<exists>fl c. (f, fl) \<in> set listing \<and> is_candidate f \<and>
             current_checksum E f fl = Some c \<and> c \<in> recorded_checksums meta f} \<and>
     set (modified st) =
       {f. \<exists>fl. (f, fl) \<in> set listing \<and> is_candidate f \<and>
             (current_checksum E f fl = None \<or>
              (\<exists>c. current_checksum E f fl = Some c \<and> f \<in> m_source ` set meta \<and>
                   c \<notin> recorded_checksums meta f))} \<and>
     set (new st) =
       {f. \<exists>fl c. (f, fl) \<in> set listing \<and> is_candidate f \<and>
             current_checksum E f fl = Some c \<and> f \<notin> m_source ` set meta} \<and>
     set (deleted st) =
       {f. f \<in> m_source ` set meta \<and> \<not> (is_candidate f \<and> f \<in> fst ` set listing)} \<and>
     distinct (unchanged st @ modified st @ new st @ deleted st)"
proof -
  let ?ex = "group_meta meta"
  let ?files = "filter (\<lambda>(f, fl). is_candidate f) listing"
  let ?st0 = "\<lparr>unchanged = [], modified = [], new = [], deleted = []\<rparr>"
  let ?st = "foldl (check_deleted (map fst ?files)) (foldl (classify E ?ex) ?st0 ?files) ?ex"
  have run: "checkDocumentStatus E meta (Some listing) = Some ?st"
    by (simp add: checkDocumentStatus_def Let_def)
  have u: "unchanged ?st = map fst (filter (is_unchanged E ?ex) ?files)"
    and m: "modified ?st = map fst (filter (is_modified E ?ex) ?files)"
    and n: "new ?st = map fst (filter (is_new E ?ex) ?files)"
    and d: "deleted ?st = filter (\<lambda>f. f \<notin> set (map fst ?files)) (map fst ?ex)"
    by (simp_all add: check_deleted_fields classify_fields)
  have dfiles: "distinct (map fst ?files)"
    using assms by (rule distinct_map_filter)
  have files: "\<And>f fl. (f, fl) \<in> set ?files \<longleftrightarrow> (f, fl) \<in> set listing \<and> is_candidate f"
    by auto
  have names: "set (map fst ?files) = {f. is_candidate f \<and> f \<in> fst ` set listing}"
    by force
  have su: "set (unchanged ?st) =
       {f. \<exists>fl c. (f, fl) \<in> set listing \<and> is_candidate f \<and>
             current_checksum E f fl = Some c \<and> c \<in> recorded_checksums meta f}"
    unfolding u
    by (auto simp: is_unchanged_def group_meta_lookup recorded_checksums_def image_iff
        split: option.splits if_splits) force+
  have sm: "set (modified ?st) =
       {f. \<exists>fl. (f, fl) \<in> set listing \<and> is_candidate f \<and>
             (current_checksum E f fl = None \<or>
              (\<exists>c. current_checksum E f fl = Some c \<and> f \<in> m_source ` set meta \<and>
                   c \<notin> recorded_checksums meta f))}"
    unfolding m
    by (auto simp: is_modified_def group_meta_lookup recorded_checksums_def image_iff
        split: option.splits if_splits) force+
  have sn: "set (new ?st) =
       {f. \<exists>fl c. (f, fl) \<in> set listing \<and> is_candidate f \<and>
             current_checksum E f fl = Some c \<and> f \<notin> m_source ` set meta}"
    unfolding n
    by (auto simp: is_new_def group_meta_lookup image_iff
        split: option.splits if_splits) force+
  have sd: "set (deleted ?st) =
       {f. f \<in> m_source ` set meta \<and> \<not> (is_candidate f \<and> f \<in> fst ` set listing)}"
    unfolding d using group_meta_keys[of meta] names by auto
  have excl: "\<And>x. \<not> (is_unchanged E ?ex x \<and> is_modified E ?ex x)"
    "\<And>x. \<not> (is_unchanged E ?ex x \<and> is_new E ?ex x)"
    "\<And>x. \<not> (is_modified E ?ex x \<and> is_new E ?ex x)"
    by (auto simp: is_unchanged_def is_modified_def is_new_def split: option.splits)
  have dis: "set (unchanged ?st) \<inter> set (modified ?st) = {}"
    "set (unchanged ?st) \<inter> set (new ?st) = {}"
    "set (modified ?st) \<inter> set (new ?st) = {}"
    unfolding u m n using excl by (intro distinct_map_filter_disjoint[OF dfiles]; blast)+
  have sub: "set (unchanged ?st) \<subseteq> set (map fst ?files)"
    "set (modified ?st) \<subseteq> set (map fst ?files)" "set (new ?st) \<subseteq> set (map fst ?files)"
    unfolding u m n by auto
  have dd: "set (deleted ?st) \<inter> set (map fst ?files) = {}"
    unfolding d by auto
  have each: "distinct (unchanged ?st)" "distinct (modified ?st)" "distinct (new ?st)"
    unfolding u m n by (rule distinct_map_filter[OF dfiles])+
  have eachd: "distinct (deleted ?st)"
    unfolding d using group_meta_keys[of meta] by simp
  have "distinct (unchanged ?st @ modified ?st @ new ?st @ deleted ?st)"
    using each eachd dis sub dd by auto
  with run su sm sn sd show ?thesis by blast
qed

lemma sample_existing:
  "group_meta sample_records =
     [(''a.txt'', [''Alpha.'']), (''b.txt'', [''Beta.'']), (''d.txt'', [''Delta.''])]"
  by code_simp

lemma sample_files:
  "filter (\<lambda>(f, fl). is_candidate f) sample_listing =
     [(''a.txt'', readable ''Alpha.''), (''b.txt'', readable ''Beta two.''),
      (''c.md'', readable ''Gamma.''), (''e.md'', unreadable)]"
  by code_simp

lemma sample_checksums:
  "current_checksum sample_env ''a.txt'' (readable ''Alpha.'') = Some ''Alpha.''"
  "current_checksum sample_env ''b.txt'' (readable ''Beta two.'') = Some ''Beta two.''"
  "current_checksum sample_env ''c.md'' (readable ''Gamma.'') = Some ''Gamma.''"
  "current_checksum sample_env ''e.md'' unreadable = None"
  "current_checksum sample_env ''a.txt'' unreadable = None"
  by code_simp+

lemma checkDocumentStatus_sample:
  "checkDocumentStatus sample_env sample_records (Some sample_listing) =
     Some \<lparr>unchanged = [''a.txt''], modified = [''b.txt'', ''e.md''], new = [''c.md''],
           deleted = [''d.txt'']\<rparr>"
  by (simp add: checkDocumentStatus_def Let_def sample_existing sample_files classify_def
      sample_checksums check_deleted_def)

theorem checkDocumentStatus_classification_witness:
  "distinct (map fst sample_listing) \<and>
   checkDocumentStatus sample_env sample_records (Some sample_listing) =
     Some \<lparr>unchanged = [''a.txt''], modified = [''b.txt'', ''e.md''], new = [''c.md''],
           deleted = [''d.txt'']\<rparr> \<and>
   distinct ([''a.txt''] @ [''b.txt'', ''e.md''] @ [''c.md''] @ [''d.txt''])"
proof -
  have d: "distinct (map fst sample_listing)" by (simp add: sample_listing_def)
  from checkDocumentStatus_classification [OF d, of sample_env sample_records]
  obtain st where a: "checkDocumentStatus sample_env sample_records (Some sample_listing) = Some st"
    and b: "distinct (unchanged st @ modified st @ new st @ deleted st)"
    by (elim exE conjE)
  from a have "st = \<lparr>unchanged = [''a.txt''], modified = [''b.txt'', ''e.md''], new = [''c.md''],
           deleted = [''d.txt'']\<rparr>"
    by (simp add: checkDocumentStatus_sample)
  with b have "distinct ([''a.txt''] @ [''b.txt'', ''e.md''] @ [''c.md''] @ [''d.txt''])"
    by simp
  with d checkDocumentStatus_sample show ?thesis by blast
qed

text \<open>
  C4 as stated fails: a listed file that is absent from the records and cannot be
  read is classified \<open>modified\<close>, not \<open>new\<close>.
\<close>

lemma candidate_a: "is_candidate ''a.txt''"
  by code_simp

theorem checkDocumentStatus_classification_counterexample:
  "checkDocumentStatus sample_env [] (Some [(''a.txt'', unreadable)]) =
     Some \<lparr>unchanged = [], modified = [''a.txt''], new = [], deleted = []\<rparr>"
  by (simp add: checkDocumentStatus_def Let_def group_meta_def candidate_a classify_def
      sample_checksums)

section \<open>Incremental ingestion against a full rebuild\<close>

text \<open>What holds of the script: when nothing is new or modified, or the target file
  is unchanged, the run exits with code 0 and leaves the persisted index as it
  was.\<close>

lemma ingest_nothing_to_do:
  assumes "checkDocumentStatus E (st_meta S) docsDir = Some st" "new st = []" "modified st = []"
  shows "ingest E clock None tags docsDir S = (0, S)"
  using assms by (simp add: ingest_def filesToProcess_def Let_def)

lemma ingest_unchanged_target:
  assumes "checkDocumentStatus E (st_meta S) docsDir = Some st" "t \<noteq> []"
    "t \<notin> set (new st)" "t \<notin> set (modified st)" "t \<in> set (unchanged st)"
  shows "ingest E clock (Some t) tags docsDir S = (0, S)"
  using assms by (simp add: ingest_def filesToProcess_def Let_def)

text \<open>What the script writes when it re-ingests a subset: the index of that subset
  alone.\<close>

lemma ingest_writes_subset:
  assumes "filesToProcess targetFile (checkDocumentStatus E (st_meta S) (Some listing)) = Inr files"
    "build_documents listing tags files \<noteq> []"
  shows "ingest E clock targetFile tags (Some listing) S =
           (0, saveVectorStore E clock (build_documents listing tags files))"
  using assms by (simp add: ingest_def Let_def)

text \<open>
  C1 at a concrete run.  The docs directory holds \<open>a.txt\<close>, ingested before and
  unchanged, and the new \<open>b.txt\<close>.  The status check classifies them so, the script
  re-ingests \<open>b.txt\<close> alone, and \<open>saveVectorStore\<close> overwrites the index with the one
  chunk of \<open>b.txt\<close>: the chunk of the unchanged \<open>a.txt\<close> is gone, while a full rebuild
  holds both chunks.
\<close>

theorem incremental_ingest_drops_unchanged:
  "index_content store_after_first = ([''1''], [[0, 1]], [''Alpha.'']) \<and>
   checkDocumentStatus sample_env (st_meta store_after_first) (Some two_files) =
     Some \<lparr>unchanged = [''a.txt''], modified = [], new = [''b.txt''], deleted = []\<rparr> \<and>
   index_content store_after_second = ([''1''], [[0, 1]], [''Beta.'']) \<and>
   map m_source (st_meta store_after_second) = [''b.txt''] \<and>
   index_content (full_rebuild sample_env sample_clock None two_files) =
     ([''1'', ''2''], [[0, 1], [0, 1]], [''Alpha.'', ''Beta.'']) \<and>
   map m_source (st_meta (full_rebuild sample_env sample_clock None two_files)) =
     [''a.txt'', ''b.txt'']"
proof (intro conjI)
  show "index_content store_after_first = ([''1''], [[0, 1]], [''Alpha.''])"
    by code_simp
  show "checkDocumentStatus sample_env (st_meta store_after_first) (Some two_files) =
     Some \<lparr>unchanged = [''a.txt''], modified = [], new = [''b.txt''], deleted = []\<rparr>"
    by code_simp
  show "index_content store_after_second = ([''1''], [[0, 1]], [''Beta.''])"
    by code_simp
  show "map m_source (st_meta store_after_second) = [''b.txt'']"
    by code_simp
  show "index_content (full_rebuild sample_env sample_clock None two_files) =
     ([''1'', ''2''], [[0, 1], [0, 1]], [''Alpha.'', ''Beta.''])"
    by code_simp
  show "map m_source (st_meta (full_rebuild sample_env sample_clock None two_files)) =
     [''a.txt'', ''b.txt'']"
    by code_simp
qed

text \<open>
  A PDF file is never classified unchanged.  The status check fingerprints a PDF
  by its name, size and modification time, while the checksum recorded at
  ingestion is the digest of the extracted text; so the PDF ingested by the run
  before is classified modified, and every full-mode run re-ingests it.
\<close>

lemma pdf_reingested:
  "checkDocumentStatus sample_env
     (st_meta (snd (ingest sample_env sample_clock None None (Some one_pdf) store_empty)))
     (Some one_pdf) =
   Some \<lparr>unchanged = [], modified = [''a.pdf''], new = [], deleted = []\<rparr>"
  by code_simp

section \<open>The ask handler: zero contexts against one context\<close>

lemma respond_zero:
  "respond A query systemPrompt meta [] =
     \<lparr>answer = insufficientResponse query (length meta) 0, contexts = [],
      totalDocuments = length meta, searchResults = 0, system = ''enhanced'',
      insufficient = True, noContext = None\<rparr>"
  by (simp add: respond_def)

lemma respond_one:
  "respond A query systemPrompt meta [c] =
     \<lparr>answer = insufficientResponse query (length meta) 1,
      contexts = format_contexts A 0 [c],
      totalDocuments = length meta, searchResults = 1, system = ''enhanced'',
      insufficient = True, noContext = None\<rparr>"
  by (simp add: respond_def)

lemma format_contexts_length: "length (format_contexts A i ctxs) = length ctxs"
  by (induction ctxs arbitrary: i) auto

text \<open>The branch that answers \<open>No relevant content found\<close> and sets \<open>noContext\<close> is
  never taken: the test \<open>contexts.length < 2\<close> comes first and holds of the empty
  array.  Both responses carry \<open>insufficient = true\<close> and no \<open>noContext\<close>.\<close>

lemma respond_noContext: "noContext (respond A query systemPrompt meta ctxs) = None"
  by (simp add: respond_def Let_def)

text \<open>The number printed in the answer differs as well, for the same query and the
  same number of documents.\<close>

lemma insufficientResponse_counts:
  "insufficientResponse query n 0 \<noteq> insufficientResponse query n 1"
  by (simp add: insufficientResponse_def show_nat.simps digit_char_def)

text \<open>
  C9.  For every request that passes the schema, the response of the handler when
  the retrieval returns zero contexts is observably different from its response
  when the retrieval returns one context (the only non-zero number below 2): both
  are answered with status 200, \<open>searchResults\<close> is 0 against 1 and \<open>contexts\<close> is
  empty against one entry, so the two response bodies are never equal.
\<close>

theorem ask_zero_distinguishable:
  assumes "3 \<le> length (b_query body0)" "10 \<le> length (b_systemPrompt body0)"
    and "3 \<le> length (b_query body1)" "10 \<le> length (b_systemPrompt body1)"
    and "similaritySearchWithScore E S0 (b_query body0)
           (case b_k body0 of None \<Rightarrow> 8 | Some k \<Rightarrow> k) = Inr []"
    and "similaritySearchWithScore E S1 (b_query body1)
           (case b_k body1 of None \<Rightarrow> 8 | Some k \<Rightarrow> k) = Inr [c]"
  shows "\<exists>r0 r1. handler E A (Some S0) body0 = Status200 r0 \<and>
                 handler E A (Some S1) body1 = Status200 r1 \<and>
                 searchResults r0 = 0 \<and> searchResults r1 = 1 \<and>
                 contexts r0 = [] \<and> length (contexts r1) = 1 \<and>
                 r0 \<noteq> r1 \<and>
                 handler E A (Some S0) body0 \<noteq> handler E A (Some S1) body1"
proof -
  let ?r0 = "respond A (b_query body0) (b_systemPrompt body0) (st_meta S0) []"
  let ?r1 = "respond A (b_query body1) (b_systemPrompt body1) (st_meta S1) [c]"
  have h0: "handler E A (Some S0) body0 = Status200 ?r0"
    using assms(1,2,5) by (simp add: handler_def)
  have h1: "handler E A (Some S1) body1 = Status200 ?r1"
    using assms(3,4,6) by (simp add: handler_def)
  have s: "searchResults ?r0 = 0" "searchResults ?r1 = 1"
    by (simp_all add: respond_zero respond_one)
  have c: "contexts ?r0 = []" "length (contexts ?r1) = 1"
    by (simp_all add: respond_zero respond_one format_contexts_length)
  from s have ne: "?r0 \<noteq> ?r1" by (metis zero_neq_one)
  then have "handler E A (Some S0) body0 \<noteq> handler E A (Some S1) body1"
    by (simp only: h0 h1 response.inject not_False_eq_True)
  with h0 h1 s c ne show ?thesis by blast
qed

text \<open>The two cases at concrete requests: the query \<open>pricing\<close> on the empty index
  retrieves zero contexts, on the one-chunk index one context.\<close>

lemma search_store_empty:
  "similaritySearchWithScore sample_env store_empty ''pricing'' 8 = Inr []"
  by (simp add: similaritySearchWithScore_def store_empty_def js_slice_def Let_def)

lemma sample_body_fields:
  "b_query sample_body = ''pricing''" "b_k sample_body = None"
  "b_systemPrompt sample_body = ''Answer from the context.''"
  by (simp_all add: sample_body_def)

lemma handler_examples:
  "handler sample_env sample_ask_env (Some store_empty) sample_body =
     Status200
       \<lparr>answer = insufficientResponse ''pricing'' 0 0, contexts = [], totalDocuments = 0,
        searchResults = 0, system = ''enhanced'', insufficient = True, noContext = None\<rparr>"
  "handler sample_env sample_ask_env (Some store_one) sample_body =
     Status200
       \<lparr>answer = insufficientResponse ''pricing'' 1 1,
        contexts =
          [\<lparr>fc_id = ''1'', fc_text = ''pricing plan'', fc_source = ''pricing.md'',
            fc_score = ''1.000'', fc_tags = [], fc_pageSpan = ''Chunk 1/1'',
            fc_chunkIndex = 0, fc_totalChunks = 1\<rparr>],
        totalDocuments = 1, searchResults = 1, system = ''enhanced'', insufficient = True,
        noContext = None\<rparr>"
proof -
  have "st_meta store_empty = []" by (simp add: store_empty_def)
  then show "handler sample_env sample_ask_env (Some store_empty) sample_body =
     Status200
       \<lparr>answer = insufficientResponse ''pricing'' 0 0, contexts = [], totalDocuments = 0,
        searchResults = 0, system = ''enhanced'', insufficient = True, noContext = None\<rparr>"
    by (simp add: handler_def sample_body_fields search_store_empty respond_zero)
  have m: "st_meta store_one = [sample_meta ''1'' ''pricing.md'']"
    by (simp add: store_one_def)
  show "handler sample_env sample_ask_env (Some store_one) sample_body =
     Status200
       \<lparr>answer = insufficientResponse ''pricing'' 1 1,
        contexts =
          [\<lparr>fc_id = ''1'', fc_text = ''pricing plan'', fc_source = ''pricing.md'',
            fc_score = ''1.000'', fc_tags = [], fc_pageSpan = ''Chunk 1/1'',
            fc_chunkIndex = 0, fc_totalChunks = 1\<rparr>],
        totalDocuments = 1, searchResults = 1, system = ''enhanced'', insufficient = True,
        noContext = None\<rparr>"
    by (simp add: handler_def sample_body_fields search_one respond_one m sample_meta_def
        or_else_def sample_ask_env_def)
qed

theorem ask_zero_distinguishable_witness:
  "3 \<le> length (b_query sample_body) \<and> 10 \<le> length (b_systemPrompt sample_body) \<and>
   similaritySearchWithScore sample_env store_empty (b_query sample_body)
     (case b_k sample_body of None \<Rightarrow> 8 | Some k \<Rightarrow> k) = Inr [] \<and>
   similaritySearchWithScore sample_env store_one (b_query sample_body)
     (case b_k sample_body of None \<Rightarrow> 8 | Some k \<Rightarrow> k) =
     Inr [(\<lparr>pageContent = ''pricing plan'', metadata = sample_meta ''1'' ''pricing.md''\<rparr>, Num 1)] \<and>
   (\<exists>r0 r1. handler sample_env sample_ask_env (Some store_empty) sample_body = Status200 r0 \<and>
            handler sample_env sample_ask_env (Some store_one) sample_body = Status200 r1 \<and>
            searchResults r0 = 0 \<and> searchResults r1 = 1 \<and>
            contexts r0 = [] \<and> length (contexts r1) = 1 \<and>
            r0 \<noteq> r1 \<and>
            handler sample_env sample_ask_env (Some store_empty) sample_body \<noteq>
              handler sample_env sample_ask_env (Some store_one) sample_body)"
proof -
  have q: "3 \<le> length (b_query sample_body)" and p: "10 \<le> length (b_systemPrompt sample_body)"
    by (simp_all add: sample_body_fields)
  have z: "similaritySearchWithScore sample_env store_empty (b_query sample_body)
     (case b_k sample_body of None \<Rightarrow> 8 | Some k \<Rightarrow> k) = Inr []"
    by (simp add: sample_body_fields search_store_empty)
  have o: "similaritySearchWithScore sample_env store_one (b_query sample_body)
     (case b_k sample_body of None \<Rightarrow> 8 | Some k \<Rightarrow> k) =
     Inr [(\<lparr>pageContent = ''pricing plan'', metadata = sample_meta ''1'' ''pricing.md''\<rparr>, Num 1)]"
    by (simp add: sample_body_fields search_one)
  from q p z o ask_zero_distinguishable[OF q p q p z o, of sample_ask_env]
  show ?thesis by (intro conjI)
qed

end
